theory Spec2Isabelle
  imports Complex_Main "HOL-Library.Multiset"
begin

section \<open>Data model of music\_data\_utils.py\<close>

text \<open>
  Times and durations are Python floats in the source. They are modelled as exact
  rationals: every arithmetic step (\<open>+\<close>, \<open>-\<close>, \<open>/\<close>, \<open>*\<close>, \<open>round\<close>) is the exact
  operation, with no binary rounding error and no non-finite value (\<open>inf\<close>, \<open>nan\<close>).
  Pitches are Python's unbounded integers. A raw event is the triple
  \<open>(offset, duration, pitches)\<close> produced by \<open>_extract_raw_events\<close>. Reading and writing
  MIDI files through music21 is outside the model: the encoder starts from the raw events,
  the decoder ends with the notes it hands to the writer. Source names that start with an
  underscore lose it (\<open>_get_pitch_median\<close> is \<open>get_pitch_median\<close>).
\<close>

type_synonym raw_event = "rat \<times> rat \<times> int list"

section \<open>Python built-ins used by the module\<close>

text \<open>\<open>round(x)\<close>: to the nearest integer, a tie to the even neighbour.\<close>

definition py_round :: "rat \<Rightarrow> int" where
  "py_round x =
     (let f = \<lfloor>x\<rfloor>; r = x - of_int f
      in if r < 1 / 2 then f
         else if 1 / 2 < r then f + 1
         else if even f then f else f + 1)"

text \<open>\<open>round(x, 3)\<close>: to the nearest multiple of one thousandth.\<close>

definition py_round3 :: "rat \<Rightarrow> rat" where
  "py_round3 x = of_int (py_round (x * 1000)) / 1000"

text \<open>\<open>int(x)\<close> on a number: truncation towards zero.\<close>

definition py_int_of_number :: "rat \<Rightarrow> int" where
  "py_int_of_number x = (if 0 \<le> x then \<lfloor>x\<rfloor> else \<lceil>x\<rceil>)"

text \<open>\<open>str(n)\<close> for an integer, and the format \<open>f"{d:.3f}"\<close>.\<close>

definition digit_char :: "nat \<Rightarrow> char" where
  "digit_char d = char_of (48 + d)"

function str_nat :: "nat \<Rightarrow> string" where
  "str_nat n = (if n < 10 then [digit_char n] else str_nat (n div 10) @ [digit_char (n mod 10)])"
  by pat_completeness auto
termination
  by (relation "measure id") auto

declare str_nat.simps [simp del]

definition str_int :: "int \<Rightarrow> string" where
  "str_int i = (if i < 0 then CHR ''-'' # str_nat (nat (- i)) else str_nat (nat i))"

definition fmt3 :: "rat \<Rightarrow> string" where
  "fmt3 d =
     (let n = nat \<bar>py_round (d * 1000)\<bar>
      in (if d < 0 then ''-'' else '''') @ str_nat (n div 1000) @ ''.'' @
         [digit_char (n div 100 mod 10), digit_char (n div 10 mod 10), digit_char (n mod 10)])"

text \<open>\<open>sep.join(xs)\<close> and \<open>s.split(c)\<close> for a one-character separator.\<close>

fun join :: "string \<Rightarrow> string list \<Rightarrow> string" where
  "join sep [] = []"
| "join sep [x] = x"
| "join sep (x # y # ys) = x @ sep @ join sep (y # ys)"

fun split_on :: "char \<Rightarrow> string \<Rightarrow> string list" where
  "split_on c [] = [[]]"
| "split_on c (x # xs) =
     (if x = c then [] # split_on c xs
      else (case split_on c xs of [] \<Rightarrow> [[x]] | w # ws \<Rightarrow> (x # w) # ws))"

text \<open>\<open>xs[i]\<close> for a non-negative index: \<open>None\<close> stands for IndexError.\<close>

fun nth_opt :: "'a list \<Rightarrow> nat \<Rightarrow> 'a option" where
  "nth_opt [] i = None"
| "nth_opt (x # xs) 0 = Some x"
| "nth_opt (x # xs) (Suc i) = nth_opt xs i"

text \<open>
  \<open>statistics.median\<close>: the middle element of the sorted data, the mean of the two
  middle elements when the length is even; \<open>None\<close> stands for StatisticsError.
\<close>

definition statistics_median :: "int list \<Rightarrow> rat option" where
  "statistics_median xs =
     (let data = sort xs; n = length data
      in if n = 0 then None
         else if n mod 2 = 1 then Some (of_int (data ! (n div 2)))
         else (let i = n div 2
               in Some ((of_int (data ! (i - 1)) + of_int (data ! i)) / 2)))"

text \<open>
  \<open>defaultdict(list)\<close>, in insertion order: a key exists from its first \<open>append\<close>
  on; \<open>d.get(k, [])\<close> reads it.
\<close>

fun dd_append :: "'k \<Rightarrow> 'v \<Rightarrow> ('k \<times> 'v list) list \<Rightarrow> ('k \<times> 'v list) list" where
  "dd_append k v [] = [(k, [v])]"
| "dd_append k v ((k', vs) # m) =
     (if k = k' then (k', vs @ [v]) # m else (k', vs) # dd_append k v m)"

definition dd_get :: "('k \<times> 'v list) list \<Rightarrow> 'k \<Rightarrow> 'v list" where
  "dd_get m k = (case map_of m k of None \<Rightarrow> [] | Some vs \<Rightarrow> vs)"

definition dd_keys :: "('k \<times> 'v list) list \<Rightarrow> 'k list" where
  "dd_keys m = map fst m"

section \<open>The quantizer\<close>

definition snap_to_grid :: "rat \<Rightarrow> rat" where
  "snap_to_grid duration =
     (let grid_binary = 1 / 8;
          steps_bin = py_round (duration / grid_binary);
          snapped_bin = of_int steps_bin * grid_binary;
          error_bin = \<bar>duration - snapped_bin\<bar>;
          grid_ternary = 1 / 12;
          steps_ter = py_round (duration / grid_ternary);
          snapped_ter = of_int steps_ter * grid_ternary;
          error_ter = \<bar>duration - snapped_ter\<bar>
      in if duration < 4 / 100 then 0
         else if error_bin \<le> error_ter then py_round3 snapped_bin
         else py_round3 snapped_ter)"

section \<open>The pitch-centre analyser\<close>

definition get_pitch_median :: "raw_event list \<Rightarrow> int" where
  "get_pitch_median raw_events =
     (let all_pitches = concat (map (\<lambda>(_, _, pitches). pitches) raw_events)
      in if all_pitches = [] then 60
         else (case statistics_median all_pitches of
                 None \<Rightarrow> 60
               | Some m \<Rightarrow> py_int_of_number m))"

section \<open>The token encoder\<close>

text \<open>
  A token is the string \<open>ON=...;OFF=...;DUR=...\<close>. The encoder builds its three fields
  and formats them at once; the model keeps the fields in a record and formats them with
  \<open>render_token\<close>. An empty pitch list is the sentinel \<open>_\<close>.
\<close>

record token =
  tok_on :: "int list"
  tok_off :: "int list"
  tok_dur :: rat

definition render_pitches :: "int list \<Rightarrow> string" where
  "render_pitches ps = (if ps = [] then ''_'' else join '','' (map str_int ps))"

definition render_token :: "token \<Rightarrow> string" where
  "render_token tk =
     ''ON='' @ render_pitches (tok_on tk) @ '';OFF='' @ render_pitches (tok_off tk) @
     '';DUR='' @ fmt3 (tok_dur tk)"

text \<open>Step 1: transposition, range protection, and the two time maps.\<close>

definition valid_pitches :: "int list \<Rightarrow> int \<Rightarrow> int list" where
  "valid_pitches pitches transpose_semitones =
     filter (\<lambda>new_p. 0 \<le> new_p \<and> new_p \<le> 127) (map (\<lambda>p. p + transpose_semitones) pitches)"

type_synonym time_map = "(rat \<times> int list) list"

definition map_event :: "int \<Rightarrow> raw_event \<Rightarrow> time_map \<times> time_map \<Rightarrow> time_map \<times> time_map" where
  "map_event transpose_semitones ev maps =
     (case ev of (offset, duration, pitches) \<Rightarrow>
        (let end_time = offset + duration
         in fold (\<lambda>p (start_map, end_map). (dd_append offset p start_map, dd_append end_time p end_map))
              (valid_pitches pitches transpose_semitones) maps))"

definition map_events :: "raw_event list \<Rightarrow> int \<Rightarrow> time_map \<times> time_map" where
  "map_events raw_events transpose_semitones = fold (map_event transpose_semitones) raw_events ([], [])"

definition all_times_of :: "time_map \<Rightarrow> time_map \<Rightarrow> rat list" where
  "all_times_of start_map end_map = sort (remdups (dd_keys start_map @ dd_keys end_map))"

text \<open>Step 2: the sweep over the time points.\<close>

record enc_state =
  note_count :: "int \<Rightarrow> int"
  prev_time :: rat
  pending_on :: "int set"
  pending_off :: "int set"
  tokens :: "token list"

definition process_off :: "int \<Rightarrow> enc_state \<Rightarrow> enc_state" where
  "process_off p st =
     (let c = note_count st p - 1;
          st' = st\<lparr>note_count := (note_count st)(p := c)\<rparr>
      in if c = 0 then st'\<lparr>pending_off := insert p (pending_off st')\<rparr> else st')"

definition process_on :: "int \<Rightarrow> enc_state \<Rightarrow> enc_state" where
  "process_on p st =
     st\<lparr>note_count := (note_count st)(p := note_count st p + 1),
        pending_on := insert p (pending_on st)\<rparr>"

definition clean_redundancy :: "enc_state \<Rightarrow> enc_state" where
  "clean_redundancy st =
     st\<lparr>pending_off := pending_off st - (pending_on st \<inter> pending_off st)\<rparr>"

text \<open>
  Steps D and E at one time point; \<open>next_time\<close> is \<open>None\<close> exactly on the last time
  point (\<open>is_last_event\<close>).
\<close>

definition emit :: "rat option \<Rightarrow> enc_state \<Rightarrow> enc_state" where
  "emit next_time st =
     (let is_last_event = (next_time = None);
          dur = (case next_time of Some next_t \<Rightarrow> snap_to_grid (next_t - prev_time st) | None \<Rightarrow> 0)
      in if 0 < dur \<or> is_last_event then
           (if pending_on st \<noteq> {} \<or> pending_off st \<noteq> {} \<or> 0 < dur then
              (let str_on = (if \<not> is_last_event then sorted_list_of_set (pending_on st) else []);
                   str_off = sorted_list_of_set (pending_off st);
                   st' = st\<lparr>tokens := tokens st @ [\<lparr>tok_on = str_on, tok_off = str_off, tok_dur = dur\<rparr>],
                            pending_on := {}, pending_off := {}\<rparr>
               in (case next_time of Some next_t \<Rightarrow> st'\<lparr>prev_time := next_t\<rparr> | None \<Rightarrow> st'))
            else st)
         else st)"

definition time_point :: "time_map \<Rightarrow> time_map \<Rightarrow> rat \<Rightarrow> rat option \<Rightarrow> enc_state \<Rightarrow> enc_state" where
  "time_point start_map end_map t next_time st =
     emit next_time
       (clean_redundancy
          (fold process_on (dd_get start_map t)
             (fold process_off (dd_get end_map t) st)))"

fun sweep :: "time_map \<Rightarrow> time_map \<Rightarrow> rat list \<Rightarrow> enc_state \<Rightarrow> enc_state" where
  "sweep start_map end_map [] st = st"
| "sweep start_map end_map (t # ts) st =
     sweep start_map end_map ts
       (time_point start_map end_map t (case ts of [] \<Rightarrow> None | next_t # _ \<Rightarrow> Some next_t) st)"

definition generate_token_records :: "raw_event list \<Rightarrow> int \<Rightarrow> token list" where
  "generate_token_records raw_events transpose_semitones =
     (case map_events raw_events transpose_semitones of (start_map, end_map) \<Rightarrow>
        (let all_times = all_times_of start_map end_map
         in if all_times = [] then []
            else tokens (sweep start_map end_map all_times
                   \<lparr>note_count = (\<lambda>_. 0), prev_time = hd all_times,
                    pending_on = {}, pending_off = {}, tokens = []\<rparr>)))"

definition generate_tokens_from_events :: "raw_event list \<Rightarrow> int \<Rightarrow> string list" where
  "generate_tokens_from_events raw_events transpose_semitones =
     map render_token (generate_token_records raw_events transpose_semitones)"

section \<open>Augmentation\<close>

text \<open>
  \<open>parse_midi_to_tokens\<close> after the score has been read: \<open>raw_events\<close> and the tempo
  \<open>meta\<close> are what the reader delivered. The window of transpositions and the loop over
  it are the two halves of the \<open>augment\<close> branch.
\<close>

definition transposition_window :: "int \<Rightarrow> int list" where
  "transposition_window median_pitch =
     (let shift_ideal = 60 - median_pitch;
          shift = max (- 6) (min 5 shift_ideal)
      in [shift - 5 .. shift + 7 - 1])"

definition augmentation_loop :: "raw_event list \<Rightarrow> int \<Rightarrow> int list \<Rightarrow> (string list \<times> int) list" where
  "augmentation_loop raw_events meta shifts =
     concat (map (\<lambda>semitone.
       (let tokens = generate_tokens_from_events raw_events semitone
        in if tokens \<noteq> [] then [(tokens, meta)] else [])) shifts)"

definition parse_midi_to_tokens :: "raw_event list \<Rightarrow> int \<Rightarrow> bool \<Rightarrow> (string list \<times> int) list" where
  "parse_midi_to_tokens raw_events meta augment =
     (if \<not> augment then [(generate_tokens_from_events raw_events 0, meta)]
      else
        (let median_pitch = get_pitch_median raw_events;
             shifts = transposition_window median_pitch
         in augmentation_loop raw_events meta shifts))"

section \<open>Parsing numbers from text\<close>

text \<open>
  \<open>int(s)\<close> and \<open>float(s)\<close> on a string of one-byte characters (code points below
  256): surrounding white space is stripped, a sign may lead, digits may be grouped by
  single underscores. \<open>None\<close> stands for ValueError. \<open>float\<close> reads a decimal literal
  with an optional fraction and an optional exponent and yields its exact value (also
  where a Python float would overflow or round); the literals \<open>inf\<close>, \<open>infinity\<close> and
  \<open>nan\<close> denote no rational and are not read by this model, and the interpreter's
  configurable limit on the number of digits of an integer literal is left out.
\<close>

definition is_space :: "char \<Rightarrow> bool" where
  "is_space c = ((of_char c :: nat) \<in> {9, 10, 11, 12, 13, 32, 133, 160})"

definition strip :: "string \<Rightarrow> string" where
  "strip s = rev (dropWhile is_space (rev (dropWhile is_space s)))"

definition is_digit :: "char \<Rightarrow> bool" where
  "is_digit c = (48 \<le> (of_char c :: nat) \<and> (of_char c :: nat) \<le> 57)"

definition digit_val :: "char \<Rightarrow> nat" where
  "digit_val c = of_char c - 48"

fun grouped_digits :: "string \<Rightarrow> string option" where
  "grouped_digits [] = None"
| "grouped_digits [c] = (if is_digit c then Some [c] else None)"
| "grouped_digits (c # d # cs) =
     (if \<not> is_digit c then None
      else if d = CHR ''_'' then map_option (\<lambda>ds. c # ds) (grouped_digits cs)
      else map_option (\<lambda>ds. c # ds) (grouped_digits (d # cs)))"

definition digits_to_nat :: "string \<Rightarrow> nat" where
  "digits_to_nat ds = foldl (\<lambda>a c. 10 * a + digit_val c) 0 ds"

definition nat_literal :: "string \<Rightarrow> nat option" where
  "nat_literal s = map_option digits_to_nat (grouped_digits s)"

definition signed_literal :: "string \<Rightarrow> int option" where
  "signed_literal t =
     (case t of
        [] \<Rightarrow> None
      | c # cs \<Rightarrow>
          if c = CHR ''-'' then map_option (\<lambda>n. - int n) (nat_literal cs)
          else if c = CHR ''+'' then map_option int (nat_literal cs)
          else map_option int (nat_literal t))"

definition py_int :: "string \<Rightarrow> int option" where
  "py_int s = signed_literal (strip s)"

definition is_exp_mark :: "char \<Rightarrow> bool" where
  "is_exp_mark c = (c = CHR ''e'' \<or> c = CHR ''E'')"

text \<open>The mantissa \<open>digits[.digits]\<close>, \<open>digits.\<close> or \<open>.digits\<close>, as a non-negative rational.\<close>

definition mantissa_literal :: "string \<Rightarrow> rat option" where
  "mantissa_literal m =
     (let ip = takeWhile (\<lambda>c. c \<noteq> CHR ''.'') m;
          rest = dropWhile (\<lambda>c. c \<noteq> CHR ''.'') m
      in if rest = [] then map_option of_nat (nat_literal ip)
         else (let fp = tl rest
               in if ip = [] \<and> fp = [] then None
                  else (case (if ip = [] then Some [] else grouped_digits ip,
                              if fp = [] then Some [] else grouped_digits fp) of
                          (Some i, Some f) \<Rightarrow>
                            Some (of_nat (digits_to_nat i) + of_nat (digits_to_nat f) / 10 ^ length f)
                        | _ \<Rightarrow> None)))"

definition py_float :: "string \<Rightarrow> rat option" where
  "py_float s =
     (let t = strip s;
          negative = (t \<noteq> [] \<and> hd t = CHR ''-'');
          body = (if t \<noteq> [] \<and> (hd t = CHR ''-'' \<or> hd t = CHR ''+'') then tl t else t);
          m = takeWhile (\<lambda>c. \<not> is_exp_mark c) body;
          rest = dropWhile (\<lambda>c. \<not> is_exp_mark c) body
      in (case (mantissa_literal m, if rest = [] then Some 0 else signed_literal (tl rest)) of
            (Some v, Some e) \<Rightarrow>
              Some ((if negative then - v else v) * (if 0 \<le> e then 10 ^ nat e else 1 / 10 ^ nat (- e)))
          | _ \<Rightarrow> None))"

section \<open>The token decoder\<close>

text \<open>
  \<open>note_state\<close> is the \<open>defaultdict\<close> from pitch to the start of the sounding instance, in
  insertion order (the final flush walks it in that order); reading a pitch creates its
  entry. \<open>report\<close> collects what the \<open>except\<close> branch prints: the index and the token.
\<close>

record dec_state =
  current_time :: rat
  note_state :: "(int \<times> rat option) list"
  collected_notes :: "(int \<times> rat \<times> rat) list"
  report :: "(nat \<times> string) list"

definition MAX_NOTE_DURATION :: rat where
  "MAX_NOTE_DURATION = 8"

definition start_of :: "(int \<times> rat option) list \<Rightarrow> int \<Rightarrow> rat option" where
  "start_of ns pitch = (case map_of ns pitch of None \<Rightarrow> None | Some s \<Rightarrow> s)"

fun set_start :: "int \<Rightarrow> rat option \<Rightarrow> (int \<times> rat option) list \<Rightarrow> (int \<times> rat option) list" where
  "set_start pitch v [] = [(pitch, v)]"
| "set_start pitch v ((q, s) # ns) =
     (if q = pitch then (q, v) # ns else (q, s) # set_start pitch v ns)"

text \<open>Closing the sounding instance of a pitch, as both the OFF and the ON branch do.\<close>

definition close_open :: "int \<Rightarrow> dec_state \<Rightarrow> dec_state" where
  "close_open pitch st =
     (case start_of (note_state st) pitch of
        None \<Rightarrow> st
      | Some start \<Rightarrow>
          (let raw_duration = current_time st - start
           in if 0 < raw_duration then
                (let final_dur = min raw_duration MAX_NOTE_DURATION
                 in st\<lparr>collected_notes := collected_notes st @ [(pitch, start, final_dur)]\<rparr>)
              else st))"

definition apply_off :: "int \<Rightarrow> dec_state \<Rightarrow> dec_state" where
  "apply_off pitch st =
     (let st' = close_open pitch st
      in st'\<lparr>note_state := set_start pitch None (note_state st')\<rparr>)"

definition apply_on :: "int \<Rightarrow> dec_state \<Rightarrow> dec_state" where
  "apply_on pitch st =
     (let st' = close_open pitch st
      in st'\<lparr>note_state := set_start pitch (Some (current_time st')) (note_state st')\<rparr>)"

text \<open>\<open>x.split('=')[1]\<close>, and the list comprehension \<open>[int(x) for x in part.split(',')]\<close>.\<close>

definition field_value :: "string \<Rightarrow> string option" where
  "field_value part = nth_opt (split_on CHR ''='' part) 1"

fun all_some :: "'a option list \<Rightarrow> 'a list option" where
  "all_some [] = Some []"
| "all_some (None # xs) = None"
| "all_some (Some x # xs) = map_option (\<lambda>ys. x # ys) (all_some xs)"

definition parse_pitches :: "string \<Rightarrow> int list option" where
  "parse_pitches part = all_some (map py_int (split_on CHR '','' part))"

text \<open>The three reads at the head of the \<open>try\<close> block; \<open>None\<close> is any exception there.\<close>

definition parse_fields :: "string \<Rightarrow> (string \<times> string \<times> rat) option" where
  "parse_fields token =
     (let parts = split_on CHR '';'' token
      in case Option.bind (nth_opt parts 0) field_value of
           None \<Rightarrow> None
         | Some on_part \<Rightarrow>
             (case Option.bind (nth_opt parts 1) field_value of
                None \<Rightarrow> None
              | Some off_part \<Rightarrow>
                  (case Option.bind (Option.bind (nth_opt parts 2) field_value) py_float of
                     None \<Rightarrow> None
                   | Some dur_part \<Rightarrow> Some (on_part, off_part, dur_part))))"

definition report_error :: "nat \<Rightarrow> string \<Rightarrow> dec_state \<Rightarrow> dec_state" where
  "report_error i token st = st\<lparr>report := report st @ [(i, token)]\<rparr>"

text \<open>
  One iteration of the loop over the tokens. An exception leaves the loop body where it is
  raised: what the body has done to the state before that point stays done.
\<close>

definition decode_token :: "nat \<Rightarrow> string \<Rightarrow> dec_state \<Rightarrow> dec_state" where
  "decode_token i token st =
     (case parse_fields token of
        None \<Rightarrow> report_error i token st
      | Some (on_part, off_part, dur_part) \<Rightarrow>
          (case (if off_part \<noteq> ''_'' then parse_pitches off_part else Some []) of
             None \<Rightarrow> report_error i token st
           | Some off_pitches \<Rightarrow>
               (let st1 = fold apply_off off_pitches st
                in case (if on_part \<noteq> ''_'' then parse_pitches on_part else Some []) of
                     None \<Rightarrow> report_error i token st1
                   | Some on_pitches \<Rightarrow>
                       (let st2 = fold apply_on on_pitches st1
                        in st2\<lparr>current_time := current_time st2 + dur_part\<rparr>))))"

fun decode_loop :: "nat \<Rightarrow> string list \<Rightarrow> dec_state \<Rightarrow> dec_state" where
  "decode_loop i [] st = st"
| "decode_loop i (token # rest) st = decode_loop (Suc i) rest (decode_token i token st)"

definition initial_dec_state :: dec_state where
  "initial_dec_state = \<lparr>current_time = 0, note_state = [], collected_notes = [], report = []\<rparr>"

text \<open>The final clean-up: notes that never received an OFF.\<close>

definition flush_note :: "rat \<Rightarrow> int \<times> rat option \<Rightarrow> (int \<times> rat \<times> rat) list \<Rightarrow> (int \<times> rat \<times> rat) list" where
  "flush_note now entry notes =
     (case entry of
        (pitch, None) \<Rightarrow> notes
      | (pitch, Some start) \<Rightarrow>
          (let raw_duration = now - start;
               final_dur = min raw_duration MAX_NOTE_DURATION
           in if 0 < final_dur then notes @ [(pitch, start, final_dur)] else notes))"

definition final_flush :: "dec_state \<Rightarrow> (int \<times> rat \<times> rat) list" where
  "final_flush st = fold (flush_note (current_time st)) (note_state st) (collected_notes st)"

text \<open>
  \<open>tokens_to_midi\<close> up to the hand-over to music21: all collected notes (unsorted, then
  sorted by start as the writer receives them), and the error report.
\<close>

definition collect_notes :: "string list \<Rightarrow> (int \<times> rat \<times> rat) list" where
  "collect_notes toks = final_flush (decode_loop 0 toks initial_dec_state)"

definition tokens_to_midi :: "string list \<Rightarrow> (int \<times> rat \<times> rat) list" where
  "tokens_to_midi toks = sort_key (\<lambda>(pitch, start, dur). start) (collect_notes toks)"

definition decode_report :: "string list \<Rightarrow> (nat \<times> string) list" where
  "decode_report toks = report (decode_loop 0 toks initial_dec_state)"

section \<open>Notions of the specification\<close>

text \<open>
  The statistical median in the specification's words: the middle of the sorted
  collection, that is the mean of its lower and its upper middle element (which coincide
  when the number of elements is odd).
\<close>

definition all_pitches_of :: "raw_event list \<Rightarrow> int list" where
  "all_pitches_of raw_events = concat (map (\<lambda>ev. snd (snd ev)) raw_events)"

definition statistical_median :: "int list \<Rightarrow> rat" where
  "statistical_median xs =
     (of_int (sort xs ! ((length xs - 1) div 2)) + of_int (sort xs ! (length xs div 2))) / 2"

section \<open>Notions used in the proofs\<close>

text \<open>Every key of a map built by appends holds at least one pitch.\<close>

definition keys_filled :: "('k \<times> 'v list) list \<Rightarrow> bool" where
  "keys_filled m = (\<forall>k \<in> set (dd_keys m). dd_get m k \<noteq> [])"

text \<open>The pitches registered at the time points \<open>T\<close>, as a multiset.\<close>

definition registered :: "time_map \<Rightarrow> rat list \<Rightarrow> int multiset" where
  "registered m T = mset (concat (map (dd_get m) T))"

definition maps_ok :: "rat list \<Rightarrow> time_map \<times> time_map \<Rightarrow> bool" where
  "maps_ok T maps =
     (keys_filled (fst maps) \<and> keys_filled (snd maps) \<and>
      registered (fst maps) T = registered (snd maps) T)"

text \<open>The state after steps A, B and C at the time point \<open>t\<close>.\<close>

definition before_emit :: "time_map \<Rightarrow> time_map \<Rightarrow> rat \<Rightarrow> enc_state \<Rightarrow> enc_state" where
  "before_emit start_map end_map t st =
     clean_redundancy (fold process_on (dd_get start_map t) (fold process_off (dd_get end_map t) st))"

text \<open>The token invariant of the sweep.\<close>

definition token_disjoint :: "token \<Rightarrow> bool" where
  "token_disjoint tk = (set (tok_on tk) \<inter> set (tok_off tk) = {})"

definition enc_inv :: "enc_state \<Rightarrow> bool" where
  "enc_inv st =
     (finite (pending_on st) \<and> finite (pending_off st) \<and> list_all token_disjoint (tokens st))"

text \<open>
  The counter of a pitch is the number of its starts minus the number of its ends among
  the time points already swept.
\<close>

definition count_inv :: "time_map \<Rightarrow> time_map \<Rightarrow> rat list \<Rightarrow> enc_state \<Rightarrow> bool" where
  "count_inv sm em swept st =
     (\<forall>p. note_count st p = int (count (registered sm swept) p) - int (count (registered em swept) p))"

definition initial_enc_state :: "rat list \<Rightarrow> enc_state" where
  "initial_enc_state all_times =
     \<lparr>note_count = (\<lambda>_. 0), prev_time = hd all_times, pending_on = {}, pending_off = {}, tokens = []\<rparr>"

text \<open>A digit is none of the separators, signs or marks of the token syntax.\<close>

definition plain :: "char \<Rightarrow> bool" where
  "plain c = (c \<notin> set '';=,_.+-eE'' \<and> \<not> is_space c)"

text \<open>A duration the encoder can emit: not negative, with at most three decimals.\<close>

definition three_decimals :: "rat \<Rightarrow> bool" where
  "three_decimals d = (0 \<le> d \<and> (\<exists>n :: nat. d = of_nat n / 1000))"

text \<open>What the decoder does with a rendered token: OFFs, then ONs, then the clock.\<close>

definition apply_token :: "token \<Rightarrow> dec_state \<Rightarrow> dec_state" where
  "apply_token tk st =
     (let st2 = fold apply_on (tok_on tk) (fold apply_off (tok_off tk) st)
      in st2\<lparr>current_time := current_time st2 + tok_dur tk\<rparr>)"

definition duration_ok :: "int \<times> rat \<times> rat \<Rightarrow> bool" where
  "duration_ok n = (case n of (pitch, start, dur) \<Rightarrow> 0 < dur \<and> dur \<le> MAX_NOTE_DURATION)"

text \<open>What the final flush appends for one entry of \<open>note_state\<close>.\<close>

definition flushed :: "rat \<Rightarrow> int \<times> rat option \<Rightarrow> (int \<times> rat \<times> rat) list" where
  "flushed now entry =
     (case entry of
        (pitch, None) \<Rightarrow> []
      | (pitch, Some start) \<Rightarrow>
          if 0 < min (now - start) MAX_NOTE_DURATION
          then [(pitch, start, min (now - start) MAX_NOTE_DURATION)] else [])"

definition keys_distinct :: "dec_state \<Rightarrow> bool" where
  "keys_distinct st = distinct (map fst (note_state st))"

text \<open>A token read as the decoder reads it: its ON pitches, its OFF pitches, its DUR.\<close>

definition read_token :: "string \<Rightarrow> (int list \<times> int list \<times> rat) option" where
  "read_token token =
     (case parse_fields token of
        None \<Rightarrow> None
      | Some (on_part, off_part, dur_part) \<Rightarrow>
          (case (if off_part \<noteq> ''_'' then parse_pitches off_part else Some []) of
             None \<Rightarrow> None
           | Some off_pitches \<Rightarrow>
               (case (if on_part \<noteq> ''_'' then parse_pitches on_part else Some []) of
                  None \<Rightarrow> None
                | Some on_pitches \<Rightarrow> Some (on_pitches, off_pitches, dur_part))))"

definition durations_printable :: "enc_state \<Rightarrow> bool" where
  "durations_printable st = list_all (\<lambda>tk. three_decimals (tok_dur tk)) (tokens st)"

section \<open>The pitch centre\<close>

lemma sort_not_Nil: "xs \<noteq> [] \<Longrightarrow> sort xs \<noteq> []"
  by (metis length_sort length_0_conv)

lemma statistics_median_eq:
  assumes "xs \<noteq> []"
  shows "statistics_median xs = Some (statistical_median xs)"
proof (cases "length xs mod 2 = 1")
  case True
  then have "(length xs - 1) div 2 = length xs div 2" by presburger
  with True assms show ?thesis
    by (simp add: statistics_median_def statistical_median_def Let_def sort_not_Nil)
next
  case False
  then have "(length xs - 1) div 2 = length xs div 2 - 1" by presburger
  with False assms show ?thesis
    by (simp add: statistics_median_def statistical_median_def Let_def sort_not_Nil)
qed

lemma trunc_towards_zero: "\<bar>of_int (py_int_of_number x)\<bar> \<le> \<bar>x\<bar>"
  unfolding py_int_of_number_def by (auto; linarith)

lemma trunc_half:
  "\<bar>of_int (py_int_of_number ((of_int a + of_int b) / 2)) - (of_int a + of_int b) / 2\<bar> \<le> (1 / 2 :: rat)"
proof (cases "even (a + b)")
  case True
  then obtain k where k: "a + b = 2 * k" by (rule evenE)
  have "(of_int a + of_int b) / 2 = (of_int k :: rat)"
    using k by (metis of_int_add of_int_mult of_int_numeral nonzero_mult_div_cancel_left zero_neq_numeral)
  then show ?thesis by (simp add: py_int_of_number_def)
next
  case False
  then obtain k where k: "a + b = 2 * k + 1" by (rule oddE)
  have e: "(of_int a + of_int b) / 2 = (of_int k :: rat) + 1 / 2"
  proof -
    have "(of_int a + of_int b :: rat) = of_int (2 * k + 1)" using k by (metis of_int_add)
    then show ?thesis by simp
  qed
  have f: "\<lfloor>(of_int k :: rat) + 1 / 2\<rfloor> = k" by linarith
  have c: "\<lceil>(of_int k :: rat) + 1 / 2\<rceil> = k + 1" by linarith
  show ?thesis unfolding e py_int_of_number_def by (simp add: f c)
qed

lemma filter_le_take:
  assumes "\<And>i. k \<le> i \<Longrightarrow> i < length s \<Longrightarrow> \<not> P (s ! i)"
  shows "length (filter P s) \<le> k"
proof -
  have "filter P (drop k s) = []"
    using assms by (auto simp: filter_empty_conv in_set_conv_nth)
  then have "filter P s = filter P (take k s)"
    by (metis append_take_drop_id filter_append append_Nil2)
  then have "length (filter P s) \<le> length (take k s)"
    by (metis length_filter_le)
  then show ?thesis by simp
qed

lemma filter_le_drop:
  assumes "\<And>i. i < k \<Longrightarrow> i < length s \<Longrightarrow> \<not> P (s ! i)"
  shows "length (filter P s) \<le> length s - k"
proof -
  have "filter P (take k s) = []"
    using assms by (auto simp: filter_empty_conv in_set_conv_nth)
  then have "filter P s = filter P (drop k s)"
    by (metis append_take_drop_id filter_append append_Nil)
  then have "length (filter P s) \<le> length (drop k s)"
    by (metis length_filter_le)
  then show ?thesis by simp
qed

text \<open>
  The specification's median is a median: at most half of the collection lies strictly
  below it and at most half strictly above it.
\<close>

lemma median_balanced:
  assumes "xs \<noteq> []"
  shows "2 * length (filter (\<lambda>x. of_int x < statistical_median xs) xs) \<le> length xs"
    and "2 * length (filter (\<lambda>x. statistical_median xs < of_int x) xs) \<le> length xs"
proof -
  let ?s = "sort xs" and ?n = "length xs" and ?m = "statistical_median xs"
  have n: "0 < ?n" using assms by simp
  have srt: "sorted ?s" by simp
  have lo_le_hi: "?s ! ((?n - 1) div 2) \<le> ?s ! (?n div 2)"
    using srt n by (intro sorted_nth_mono) auto
  have m_hi: "?m \<le> of_int (?s ! (?n div 2))" and m_lo: "of_int (?s ! ((?n - 1) div 2)) \<le> ?m"
    using lo_le_hi unfolding statistical_median_def by (simp_all add: field_simps)
  have "length (filter (\<lambda>x. of_int x < ?m) ?s) \<le> ?n div 2"
  proof (rule filter_le_take)
    fix i assume i: "?n div 2 \<le> i" "i < length ?s"
    then have "?s ! (?n div 2) \<le> ?s ! i" using srt by (intro sorted_nth_mono) auto
    then have "of_int (?s ! (?n div 2)) \<le> (of_int (?s ! i) :: rat)" by simp
    with m_hi show "\<not> of_int (?s ! i) < ?m" by linarith
  qed
  moreover have "length (filter (\<lambda>x. of_int x < ?m) ?s) = length (filter (\<lambda>x. of_int x < ?m) xs)"
    by (metis mset_filter mset_sort size_mset)
  ultimately show "2 * length (filter (\<lambda>x. of_int x < ?m) xs) \<le> ?n" by simp
  have "length (filter (\<lambda>x. ?m < of_int x) ?s) \<le> length ?s - ((?n - 1) div 2 + 1)"
  proof (rule filter_le_drop)
    fix i assume i: "i < (?n - 1) div 2 + 1" "i < length ?s"
    then have "?s ! i \<le> ?s ! ((?n - 1) div 2)" using srt n by (intro sorted_nth_mono) auto
    then have "(of_int (?s ! i) :: rat) \<le> of_int (?s ! ((?n - 1) div 2))" by simp
    with m_lo show "\<not> ?m < of_int (?s ! i)" by linarith
  qed
  moreover have "length (filter (\<lambda>x. ?m < of_int x) ?s) = length (filter (\<lambda>x. ?m < of_int x) xs)"
    by (metis mset_filter mset_sort size_mset)
  ultimately show "2 * length (filter (\<lambda>x. ?m < of_int x) xs) \<le> ?n" using n by simp
qed

lemma all_pitches_concat:
  "concat (map (\<lambda>(_, _, pitches). pitches) raw_events) = all_pitches_of raw_events"
  unfolding all_pitches_of_def by (rule arg_cong [where f = concat]) (auto simp: case_prod_beta)

text \<open>
  C8. The pitch-centre analyser flattens the pitches of all events into one collection.
  If the collection is empty it returns 60. Otherwise it returns the statistical median
  of the collection made an integer: the result is the truncation of the median towards
  zero, it lies within one half of the median (so it is a nearest integer, and the median
  itself when that is integral), and it is never larger in magnitude than the median.
\<close>

theorem pitch_median_contract:
  "(all_pitches_of raw_events = [] \<longrightarrow> get_pitch_median raw_events = 60) \<and>
   (all_pitches_of raw_events \<noteq> [] \<longrightarrow>
      get_pitch_median raw_events = py_int_of_number (statistical_median (all_pitches_of raw_events)) \<and>
      \<bar>of_int (get_pitch_median raw_events) - statistical_median (all_pitches_of raw_events)\<bar> \<le> 1 / 2 \<and>
      \<bar>of_int (get_pitch_median raw_events)\<bar> \<le> \<bar>statistical_median (all_pitches_of raw_events)\<bar>)"
proof -
  let ?all = "all_pitches_of raw_events"
  have empty: "?all = [] \<longrightarrow> get_pitch_median raw_events = 60"
    by (simp add: get_pitch_median_def all_pitches_concat)
  have med: "get_pitch_median raw_events = py_int_of_number (statistical_median ?all)" if "?all \<noteq> []"
    using that by (simp add: get_pitch_median_def all_pitches_concat statistics_median_eq)
  have near: "\<bar>of_int (py_int_of_number (statistical_median ?all)) - statistical_median ?all\<bar> \<le> 1 / 2"
    unfolding statistical_median_def by (rule trunc_half)
  show ?thesis using empty med near trunc_towards_zero [of "statistical_median ?all"] by simp
qed

theorem pitch_median_contract_witness:
  "all_pitches_of [] = [] \<and> get_pitch_median [] = 60 \<and>
   all_pitches_of [(0, 1, [61, 62])] \<noteq> [] \<and>
   get_pitch_median [(0, 1, [61, 62])] = py_int_of_number (statistical_median [61, 62]) \<and>
   get_pitch_median [(0, 1, [61, 62])] = 61"
proof -
  have a: "all_pitches_of [] = []" by (simp add: all_pitches_of_def)
  have b: "all_pitches_of [(0, 1, [61, 62])] = [61, 62]" by (simp add: all_pitches_of_def)
  have c: "py_int_of_number (statistical_median [61, 62]) = 61"
    by code_simp
  show ?thesis
    using pitch_median_contract [of "[]"] pitch_median_contract [of "[(0, 1, [61, 62])]"] a b c
    by simp
qed

section \<open>The augmentation window\<close>





section \<open>The quantizer contract\<close>

lemma py_round_of_int: "py_round (of_int n) = n"
  by (simp add: py_round_def)

lemma py_round_nonneg: "0 \<le> x \<Longrightarrow> 0 \<le> py_round x"
  by (auto simp: py_round_def Let_def)

lemma py_round_near: "\<bar>of_int (py_round x) - x\<bar> \<le> 1 / 2"
proof -
  have "of_int \<lfloor>x\<rfloor> \<le> x" "x < of_int \<lfloor>x\<rfloor> + 1" by linarith+
  then show ?thesis unfolding py_round_def Let_def by (simp split: if_splits)
qed

lemma py_round3_nonneg: "0 \<le> x \<Longrightarrow> 0 \<le> py_round3 x"
  by (simp add: py_round3_def py_round_nonneg)




section \<open>The encoder: time maps, sweep invariants, final token\<close>

lemma dd_get_append:
  "dd_get (dd_append k v m) k' = (if k' = k then dd_get m k @ [v] else dd_get m k')"
  by (induction m) (auto simp: dd_get_def)

lemma dd_keys_append:
  "dd_keys (dd_append k v m) = (if k \<in> set (dd_keys m) then dd_keys m else dd_keys m @ [k])"
  by (induction m) (force simp: dd_keys_def)+

lemma keys_dd_append: "set (dd_keys (dd_append k v m)) = insert k (set (dd_keys m))"
  by (auto simp: dd_keys_append)

lemma dd_get_outside:
  assumes "k \<notin> set (dd_keys m)"
  shows "dd_get m k = []"
proof -
  have "map_of m k = None" using assms by (simp add: map_of_eq_None_iff dd_keys_def)
  then show ?thesis by (simp add: dd_get_def)
qed

lemma keys_filled_append: "keys_filled m \<Longrightarrow> keys_filled (dd_append k v m)"
  unfolding keys_filled_def keys_dd_append by (simp add: dd_get_append)

lemma registered_append:
  assumes "distinct T" "k \<in> set T"
  shows "registered (dd_append k v m) T = add_mset v (registered m T)"
  using assms
proof (induction T)
  case Nil
  then show ?case by simp
next
  case (Cons t T)
  show ?case
  proof (cases "t = k")
    case True
    with Cons.prems have "k \<notin> set T" by simp
    then have eq: "map (dd_get (dd_append k v m)) T = map (dd_get m) T"
      by (intro map_cong) (auto simp: dd_get_append)
    show ?thesis by (simp add: registered_def dd_get_append eq True)
  next
    case False
    with Cons show ?thesis by (simp add: registered_def dd_get_append)
  qed
qed

lemma fold_register:
  "fold (\<lambda>p (start_map, end_map). (dd_append a p start_map, dd_append b p end_map)) ps (sm, em) =
     (fold (dd_append a) ps sm, fold (dd_append b) ps em)"
  by (induction ps arbitrary: sm em) auto

lemma keys_fold_append:
  "set (dd_keys (fold (dd_append a) ps m)) = (if ps = [] then set (dd_keys m) else insert a (set (dd_keys m)))"
  by (induction ps arbitrary: m) (auto simp: keys_dd_append)

lemma keys_filled_fold: "keys_filled m \<Longrightarrow> keys_filled (fold (dd_append a) ps m)"
  by (induction ps arbitrary: m) (auto simp: keys_filled_append)

lemma registered_fold:
  assumes "distinct T" "a \<in> set T"
  shows "registered (fold (dd_append a) ps m) T = mset ps + registered m T"
  using assms by (induction ps arbitrary: m) (auto simp: registered_append)

lemma map_event_unfold:
  "map_event s (offset, duration, pitches) (sm, em) =
     (fold (dd_append offset) (valid_pitches pitches s) sm,
      fold (dd_append (offset + duration)) (valid_pitches pitches s) em)"
  by (simp add: map_event_def Let_def fold_register)

lemma keys_map_event_mono:
  "set (dd_keys (fst maps)) \<subseteq> set (dd_keys (fst (map_event s ev maps)))"
  "set (dd_keys (snd maps)) \<subseteq> set (dd_keys (snd (map_event s ev maps)))"
  by (cases ev; cases maps; auto simp: map_event_unfold keys_fold_append)+

lemma keys_fold_map_event_mono:
  "set (dd_keys (fst maps)) \<subseteq> set (dd_keys (fst (fold (map_event s) evs maps))) \<and>
   set (dd_keys (snd maps)) \<subseteq> set (dd_keys (snd (fold (map_event s) evs maps)))"
proof (induction evs arbitrary: maps)
  case Nil
  then show ?case by simp
next
  case (Cons ev evs)
  show ?case
    using Cons.IH [of "map_event s ev maps"] keys_map_event_mono [of maps s ev]
    by (simp) blast
qed

lemma maps_ok_map_event:
  assumes "maps_ok T maps" "distinct T"
    and "set (dd_keys (fst (map_event s ev maps))) \<subseteq> set T"
    and "set (dd_keys (snd (map_event s ev maps))) \<subseteq> set T"
  shows "maps_ok T (map_event s ev maps)"
proof -
  obtain offset duration pitches where ev: "ev = (offset, duration, pitches)" by (cases ev)
  obtain sm em where maps: "maps = (sm, em)" by (cases maps)
  let ?v = "valid_pitches pitches s"
  show ?thesis
  proof (cases "?v = []")
    case True
    with assms(1) show ?thesis by (simp add: ev maps map_event_unfold maps_ok_def)
  next
    case False
    with assms(3,4) have "offset \<in> set T" "offset + duration \<in> set T"
      by (simp_all add: ev maps map_event_unfold keys_fold_append)
    with assms(1,2) show ?thesis
      by (simp add: ev maps map_event_unfold maps_ok_def keys_filled_fold registered_fold)
  qed
qed

lemma maps_ok_fold:
  assumes "maps_ok T maps" "distinct T"
    and "set (dd_keys (fst (fold (map_event s) evs maps))) \<subseteq> set T"
    and "set (dd_keys (snd (fold (map_event s) evs maps))) \<subseteq> set T"
  shows "maps_ok T (fold (map_event s) evs maps)"
  using assms
proof (induction evs arbitrary: maps)
  case Nil
  then show ?case by simp
next
  case (Cons ev evs)
  have "maps_ok T (map_event s ev maps)"
  proof (rule maps_ok_map_event [OF Cons.prems(1,2)])
    show "set (dd_keys (fst (map_event s ev maps))) \<subseteq> set T"
      using keys_fold_map_event_mono [of "map_event s ev maps" s evs] Cons.prems(3) by (simp) blast
    show "set (dd_keys (snd (map_event s ev maps))) \<subseteq> set T"
      using keys_fold_map_event_mono [of "map_event s ev maps" s evs] Cons.prems(4) by (simp) blast
  qed
  then show ?case using Cons.IH [of "map_event s ev maps"] Cons.prems(2,3,4) by simp
qed

lemma all_times_props:
  "distinct (all_times_of sm em)" "sorted (all_times_of sm em)"
  "set (all_times_of sm em) = set (dd_keys sm) \<union> set (dd_keys em)"
  by (simp_all add: all_times_of_def)

lemma map_events_ok:
  assumes "map_events evs s = (sm, em)"
  shows "maps_ok (all_times_of sm em) (sm, em)"
proof -
  have "maps_ok (all_times_of sm em) ([], [])"
    by (simp add: maps_ok_def keys_filled_def dd_keys_def)
  then have "maps_ok (all_times_of sm em) (fold (map_event s) evs ([], []))"
    using assms by (intro maps_ok_fold) (simp_all add: all_times_props map_events_def)
  then show ?thesis using assms by (simp add: map_events_def)
qed

subsection \<open>What one time point does to the state\<close>

lemma fold_process_off_fields:
  "prev_time (fold process_off xs st) = prev_time st"
  "pending_on (fold process_off xs st) = pending_on st"
  "tokens (fold process_off xs st) = tokens st"
  by (induction xs arbitrary: st) (simp_all add: process_off_def Let_def)

lemma fold_process_off_count:
  "note_count (fold process_off xs st) p = note_count st p - int (count_list xs p)"
  by (induction xs arbitrary: st) (simp_all add: process_off_def Let_def)

lemma fold_process_off_pending:
  "pending_off st \<subseteq> pending_off (fold process_off xs st) \<and>
   pending_off (fold process_off xs st) \<subseteq> pending_off st \<union> set xs"
proof (induction xs arbitrary: st)
  case Nil
  then show ?case by simp
next
  case (Cons x xs)
  have "pending_off st \<subseteq> pending_off (process_off x st)"
    "pending_off (process_off x st) \<subseteq> insert x (pending_off st)"
    by (auto simp: process_off_def Let_def)
  with Cons.IH [of "process_off x st"] show ?case by auto
qed

lemma fold_process_on_fields:
  "prev_time (fold process_on xs st) = prev_time st"
  "pending_off (fold process_on xs st) = pending_off st"
  "tokens (fold process_on xs st) = tokens st"
  "pending_on (fold process_on xs st) = pending_on st \<union> set xs"
  by (induction xs arbitrary: st) (simp_all add: process_on_def)

lemma fold_process_on_count:
  "note_count (fold process_on xs st) p = note_count st p + int (count_list xs p)"
  by (induction xs arbitrary: st) (simp_all add: process_on_def)

lemma clean_redundancy_fields:
  "note_count (clean_redundancy st) = note_count st"
  "prev_time (clean_redundancy st) = prev_time st"
  "pending_on (clean_redundancy st) = pending_on st"
  "pending_off (clean_redundancy st) = pending_off st - pending_on st"
  "tokens (clean_redundancy st) = tokens st"
  by (auto simp: clean_redundancy_def)

lemma emit_count: "note_count (emit next_time st) = note_count st"
  by (simp add: emit_def Let_def split: option.splits)

lemma time_point_emit:
  "time_point sm em t nx st = emit nx (before_emit sm em t st)"
  by (simp add: time_point_def before_emit_def)

lemma before_emit_count:
  "note_count (before_emit sm em t st) p =
     note_count st p - int (count_list (dd_get em t) p) + int (count_list (dd_get sm t) p)"
  by (simp add: before_emit_def clean_redundancy_fields fold_process_on_count fold_process_off_count)

lemma before_emit_tokens: "tokens (before_emit sm em t st) = tokens st"
  by (simp add: before_emit_def clean_redundancy_fields fold_process_on_fields fold_process_off_fields)

lemma before_emit_disjoint:
  "pending_on (before_emit sm em t st) \<inter> pending_off (before_emit sm em t st) = {}"
  by (auto simp: before_emit_def clean_redundancy_fields)

lemma before_emit_finite:
  assumes "finite (pending_on st)" "finite (pending_off st)"
  shows "finite (pending_on (before_emit sm em t st))" "finite (pending_off (before_emit sm em t st))"
proof -
  show "finite (pending_on (before_emit sm em t st))"
    using assms(1)
    by (simp add: before_emit_def clean_redundancy_fields fold_process_on_fields fold_process_off_fields)
  have "pending_off (fold process_off (dd_get em t) st) \<subseteq> pending_off st \<union> set (dd_get em t)"
    using fold_process_off_pending by blast
  then have "finite (pending_off (fold process_off (dd_get em t) st))"
    using assms(2) by (meson finite_UnI finite_set finite_subset)
  then show "finite (pending_off (before_emit sm em t st))"
    by (simp add: before_emit_def clean_redundancy_fields fold_process_on_fields)
qed

lemma emit_inv:
  assumes "finite (pending_on st)" "finite (pending_off st)" "list_all token_disjoint (tokens st)"
    and "pending_on st \<inter> pending_off st = {}"
  shows "enc_inv (emit nx st)"
  using assms
  by (auto simp: emit_def Let_def enc_inv_def token_disjoint_def split: option.splits)

lemma time_point_inv: "enc_inv st \<Longrightarrow> enc_inv (time_point sm em t nx st)"
  unfolding time_point_emit
  by (rule emit_inv)
     (simp_all add: enc_inv_def before_emit_finite before_emit_tokens before_emit_disjoint)

lemma sweep_inv: "enc_inv st \<Longrightarrow> enc_inv (sweep sm em ts st)"
  by (induction ts arbitrary: st) (simp_all add: time_point_inv)

subsection \<open>The last time point always emits\<close>

lemma registered_snoc: "registered m (T @ [t]) = registered m T + mset (dd_get m t)"
  by (simp add: registered_def)

lemma count_inv_step:
  assumes "count_inv sm em swept st"
  shows "count_inv sm em (swept @ [t]) (time_point sm em t nx st)"
  using assms
  by (simp add: count_inv_def time_point_emit emit_count before_emit_count registered_snoc count_mset)

lemma fold_process_off_reaches_zero:
  assumes "note_count st p = int (count_list xs p)" "p \<in> set xs"
  shows "p \<in> pending_off (fold process_off xs st)"
  using assms
proof (induction xs arbitrary: st)
  case Nil
  then show ?case by simp
next
  case (Cons x xs)
  show ?case
  proof (cases "p \<in> set xs")
    case True
    have "note_count (process_off x st) p = note_count st p - int (count_list [x] p)"
      using fold_process_off_count [of "[x]" st p] by simp
    then have "note_count (process_off x st) p = int (count_list xs p)"
      using Cons.prems(1) by simp
    from Cons.IH [OF this True] show ?thesis by simp
  next
    case False
    with Cons.prems have x: "x = p" and c: "note_count st p = 1" by simp_all
    have "p \<in> pending_off (process_off x st)"
      using x c by (simp add: process_off_def Let_def)
    then show ?thesis using fold_process_off_pending [of "process_off x st" xs] by auto
  qed
qed

lemma last_point_has_content:
  assumes inv: "count_inv sm em swept st"
    and bal: "registered sm (swept @ [t]) = registered em (swept @ [t])"
    and key: "dd_get sm t \<noteq> [] \<or> dd_get em t \<noteq> []"
  shows "pending_on (before_emit sm em t st) \<noteq> {} \<or> pending_off (before_emit sm em t st) \<noteq> {}"
proof (cases "dd_get sm t = []")
  case False
  then show ?thesis
    by (simp add: before_emit_def clean_redundancy_fields fold_process_on_fields)
next
  case True
  with key obtain p where p: "p \<in> set (dd_get em t)" by (cases "dd_get em t") auto
  have "count (registered sm swept) p = count (registered em swept) p + count_list (dd_get em t) p"
    using bal True by (simp add: registered_snoc count_mset)
  then have "note_count st p = int (count_list (dd_get em t) p)"
    using inv by (simp add: count_inv_def)
  then have "p \<in> pending_off (fold process_off (dd_get em t) st)"
    using p by (rule fold_process_off_reaches_zero)
  then show ?thesis
    by (auto simp: before_emit_def clean_redundancy_fields fold_process_on_fields)
qed

lemma emit_last:
  assumes "pending_on st \<noteq> {} \<or> pending_off st \<noteq> {}"
  shows "tokens (emit None st) =
           tokens st @ [\<lparr>tok_on = [], tok_off = sorted_list_of_set (pending_off st), tok_dur = 0\<rparr>]"
  using assms by (auto simp: emit_def Let_def)

lemma sweep_last_token:
  assumes "ts \<noteq> []" "count_inv sm em swept st"
    and "registered sm (swept @ ts) = registered em (swept @ ts)"
    and "\<forall>t \<in> set ts. dd_get sm t \<noteq> [] \<or> dd_get em t \<noteq> []"
  shows "tokens (sweep sm em ts st) \<noteq> [] \<and>
         tok_on (last (tokens (sweep sm em ts st))) = [] \<and>
         tok_dur (last (tokens (sweep sm em ts st))) = 0"
  using assms
proof (induction ts arbitrary: st swept)
  case Nil
  then show ?case by simp
next
  case (Cons t ts)
  show ?case
  proof (cases ts)
    case Nil
    have "pending_on (before_emit sm em t st) \<noteq> {} \<or> pending_off (before_emit sm em t st) \<noteq> {}"
      using Cons.prems Nil by (intro last_point_has_content [where swept = swept]) simp_all
    from emit_last [OF this] show ?thesis by (simp add: Nil time_point_emit)
  next
    case (Cons t' rest)
    let ?st = "time_point sm em t (Some t') st"
    have "tokens (sweep sm em ts ?st) \<noteq> [] \<and>
          tok_on (last (tokens (sweep sm em ts ?st))) = [] \<and>
          tok_dur (last (tokens (sweep sm em ts ?st))) = 0"
    proof (rule Cons.IH [where swept = "swept @ [t]"])
      show "ts \<noteq> []" by (simp add: Cons)
      show "count_inv sm em (swept @ [t]) ?st" using Cons.prems(2) by (rule count_inv_step)
      show "registered sm ((swept @ [t]) @ ts) = registered em ((swept @ [t]) @ ts)"
        using Cons.prems(3) by simp
      show "\<forall>t \<in> set ts. dd_get sm t \<noteq> [] \<or> dd_get em t \<noteq> []" using Cons.prems(4) by simp
    qed
    then show ?thesis by (simp add: Cons)
  qed
qed

lemma generate_token_records_unfold:
  assumes "map_events evs s = (sm, em)"
  shows "generate_token_records evs s =
     (if all_times_of sm em = [] then []
      else tokens (sweep sm em (all_times_of sm em) (initial_enc_state (all_times_of sm em))))"
  using assms by (simp add: generate_token_records_def initial_enc_state_def Let_def)

lemma records_last_token:
  assumes "map_events evs s = (sm, em)" "all_times_of sm em \<noteq> []"
  shows "generate_token_records evs s \<noteq> [] \<and>
         tok_on (last (generate_token_records evs s)) = [] \<and>
         tok_dur (last (generate_token_records evs s)) = 0"
proof -
  let ?T = "all_times_of sm em"
  have ok: "maps_ok ?T (sm, em)" using assms(1) by (rule map_events_ok)
  have "tokens (sweep sm em ?T (initial_enc_state ?T)) \<noteq> [] \<and>
        tok_on (last (tokens (sweep sm em ?T (initial_enc_state ?T)))) = [] \<and>
        tok_dur (last (tokens (sweep sm em ?T (initial_enc_state ?T)))) = 0"
  proof (rule sweep_last_token [where swept = "[]"])
    show "?T \<noteq> []" by (rule assms(2))
    show "count_inv sm em [] (initial_enc_state ?T)"
      by (simp add: count_inv_def initial_enc_state_def registered_def)
    show "registered sm ([] @ ?T) = registered em ([] @ ?T)" using ok by (simp add: maps_ok_def)
    show "\<forall>t \<in> set ?T. dd_get sm t \<noteq> [] \<or> dd_get em t \<noteq> []"
      using ok by (auto simp: maps_ok_def keys_filled_def all_times_props)
  qed
  then show ?thesis using assms by (simp add: generate_token_records_unfold)
qed

lemma sweep_from_initial_inv:
  "list_all token_disjoint (tokens (sweep sm em ts (initial_enc_state T)))"
proof -
  have "enc_inv (initial_enc_state T)" by (simp add: enc_inv_def initial_enc_state_def)
  then have "enc_inv (sweep sm em ts (initial_enc_state T))" by (rule sweep_inv)
  then show ?thesis by (simp add: enc_inv_def)
qed

lemma records_disjoint: "list_all token_disjoint (generate_token_records evs s)"
proof -
  obtain sm em where maps: "map_events evs s = (sm, em)" by (cases "map_events evs s")
  show ?thesis
    unfolding generate_token_records_unfold [OF maps] by (simp add: sweep_from_initial_inv)
qed

lemma fmt3_zero: "fmt3 0 = ''0.000''"
  by code_simp

text \<open>
  C3. For every list of raw events and every transposition, if the encoder's output is
  not empty then its last token has the empty ON sentinel and duration 0: it is the string
  \<open>ON=_;OFF=...;DUR=0.000\<close>, whatever is pending in the ON buffer at the last time point.
\<close>

theorem final_token_invariant:
  "generate_tokens_from_events evs s \<noteq> [] \<longrightarrow>
     tok_on (last (generate_token_records evs s)) = [] \<and>
     tok_dur (last (generate_token_records evs s)) = 0 \<and>
     last (generate_tokens_from_events evs s) =
       ''ON=_;OFF='' @ render_pitches (tok_off (last (generate_token_records evs s))) @ '';DUR=0.000''"
proof
  assume ne: "generate_tokens_from_events evs s \<noteq> []"
  obtain sm em where maps: "map_events evs s = (sm, em)" by (cases "map_events evs s")
  from ne have recs: "generate_token_records evs s \<noteq> []"
    by (simp add: generate_tokens_from_events_def)
  then have "all_times_of sm em \<noteq> []"
    unfolding generate_token_records_unfold [OF maps] by (simp split: if_splits)
  from records_last_token [OF maps this]
  have l: "tok_on (last (generate_token_records evs s)) = []"
    "tok_dur (last (generate_token_records evs s)) = 0" by simp_all
  have "last (generate_tokens_from_events evs s) = render_token (last (generate_token_records evs s))"
    using recs by (simp add: generate_tokens_from_events_def last_map)
  also have "\<dots> = ''ON=_;OFF='' @ render_pitches (tok_off (last (generate_token_records evs s))) @ '';DUR=0.000''"
    by (simp add: render_token_def l render_pitches_def fmt3_zero)
  finally show "tok_on (last (generate_token_records evs s)) = [] \<and>
     tok_dur (last (generate_token_records evs s)) = 0 \<and>
     last (generate_tokens_from_events evs s) =
       ''ON=_;OFF='' @ render_pitches (tok_off (last (generate_token_records evs s))) @ '';DUR=0.000''"
    using l by simp
qed

theorem final_token_invariant_witness:
  "generate_tokens_from_events [(0, 1, [60]), (1, 0, [62])] 0 \<noteq> [] \<and>
   last (generate_tokens_from_events [(0, 1, [60]), (1, 0, [62])] 0) = ''ON=_;OFF=60;DUR=0.000''"
proof -
  have "generate_token_records [(0, 1, [60]), (1, 0, [62])] 0 =
      [\<lparr>tok_on = [60], tok_off = [], tok_dur = 1\<rparr>, \<lparr>tok_on = [], tok_off = [60], tok_dur = 0\<rparr>]"
    by code_simp
  moreover have "render_pitches [60] = ''60''" by code_simp
  moreover have "generate_tokens_from_events [(0, 1, [60]), (1, 0, [62])] 0 \<noteq> []"
    by code_simp
  ultimately show ?thesis
    using final_token_invariant [of "[(0, 1, [60]), (1, 0, [62])]" 0] by simp
qed

subsection \<open>Non-empty output\<close>

lemma offset_registered:
  assumes "ev \<in> set evs" "valid_pitches (snd (snd ev)) s \<noteq> []"
  shows "fst ev \<in> set (dd_keys (fst (fold (map_event s) evs maps)))"
  using assms
proof (induction evs arbitrary: maps)
  case Nil
  then show ?case by simp
next
  case (Cons e evs)
  show ?case
  proof (cases "ev \<in> set evs")
    case True
    then show ?thesis using Cons.IH [of "map_event s e maps"] Cons.prems(2) by simp
  next
    case False
    with Cons.prems have e: "e = ev" by simp
    obtain offset duration pitches where ev: "ev = (offset, duration, pitches)" by (cases ev)
    obtain sm em where m: "maps = (sm, em)" by (cases maps)
    have "offset \<in> set (dd_keys (fst (map_event s ev maps)))"
      using Cons.prems(2) by (simp add: ev m map_event_unfold keys_fold_append)
    then show ?thesis
      using keys_fold_map_event_mono [of "map_event s ev maps" s evs] by (auto simp: e ev)
  qed
qed

lemma records_nonempty:
  assumes "ev \<in> set evs" "valid_pitches (snd (snd ev)) s \<noteq> []"
  shows "generate_token_records evs s \<noteq> []"
proof -
  obtain sm em where maps: "map_events evs s = (sm, em)" by (cases "map_events evs s")
  have "fst ev \<in> set (dd_keys sm)"
    using offset_registered [OF assms, of "([], [])"] maps by (simp add: map_events_def)
  then have "all_times_of sm em \<noteq> []"
    using all_times_props(3) [of sm em] by auto
  from records_last_token [OF maps this] show ?thesis by simp
qed

lemma zero_in_window: "0 \<in> set (transposition_window m)"
  by (simp add: transposition_window_def Let_def)

lemma augmentation_loop_member:
  assumes "k \<in> set shifts" "generate_tokens_from_events evs k \<noteq> []"
  shows "(generate_tokens_from_events evs k, meta) \<in> set (augmentation_loop evs meta shifts)"
  using assms by (auto simp: augmentation_loop_def Let_def)

text \<open>
  C9. For every median pitch the transposition 0 lies in the window; consequently, when
  the events hold at least one pitch in \<open>[0, 127]\<close>, the encoding for transposition 0 is
  not empty and the augmented output contains it.
\<close>

theorem untransposed_variant_kept:
  "0 \<in> set (transposition_window m) \<and>
   ((\<exists>ev \<in> set evs. \<exists>p \<in> set (snd (snd ev)). 0 \<le> p \<and> p \<le> 127) \<longrightarrow>
      generate_tokens_from_events evs 0 \<noteq> [] \<and>
      (generate_tokens_from_events evs 0, meta) \<in> set (parse_midi_to_tokens evs meta True))"
proof (intro conjI impI)
  show "0 \<in> set (transposition_window m)" by (rule zero_in_window)
next
  assume "\<exists>ev \<in> set evs. \<exists>p \<in> set (snd (snd ev)). 0 \<le> p \<and> p \<le> 127"
  then obtain ev p where ev: "ev \<in> set evs" and p: "p \<in> set (snd (snd ev))" "0 \<le> p" "p \<le> 127"
    by blast
  have "p \<in> set (valid_pitches (snd (snd ev)) 0)" using p by (simp add: valid_pitches_def)
  then have "valid_pitches (snd (snd ev)) 0 \<noteq> []" by auto
  from records_nonempty [OF ev this]
  show ne: "generate_tokens_from_events evs 0 \<noteq> []" by (simp add: generate_tokens_from_events_def)
  show "(generate_tokens_from_events evs 0, meta) \<in> set (parse_midi_to_tokens evs meta True)"
    using augmentation_loop_member [OF zero_in_window ne]
    by (simp add: parse_midi_to_tokens_def Let_def)
qed

theorem untransposed_variant_kept_witness:
  "(\<exists>ev \<in> set [(0, 1, [72 :: int])]. \<exists>p \<in> set (snd (snd ev)). 0 \<le> p \<and> p \<le> 127) \<and>
   ([''ON=72;OFF=_;DUR=1.000'', ''ON=_;OFF=72;DUR=0.000''], 120)
     \<in> set (parse_midi_to_tokens [(0, 1, [72])] 120 True)"
proof -
  have "generate_tokens_from_events [(0, 1, [72])] 0 = [''ON=72;OFF=_;DUR=1.000'', ''ON=_;OFF=72;DUR=0.000'']"
    by code_simp
  then show ?thesis
    using untransposed_variant_kept [of 72 "[(0, 1, [72])]" 120] by simp
qed

section \<open>Rendered tokens read back\<close>

subsection \<open>Characters of rendered numbers\<close>

lemma of_char_digit_char: "d < 10 \<Longrightarrow> (of_char (digit_char d) :: nat) = 48 + d"
  by (simp add: digit_char_def)

lemma digit_char_is_digit: "d < 10 \<Longrightarrow> is_digit (digit_char d)"
  by (simp add: is_digit_def of_char_digit_char)

lemma digit_val_digit_char: "d < 10 \<Longrightarrow> digit_val (digit_char d) = d"
  by (simp add: digit_val_def of_char_digit_char)

lemma digit_plain: "is_digit c \<Longrightarrow> plain c"
  by (auto simp: is_digit_def plain_def is_space_def)

lemma str_nat_digits: "list_all is_digit (str_nat n) \<and> str_nat n \<noteq> []"
proof (induction n rule: str_nat.induct)
  case (1 n)
  show ?case
  proof (cases "n < 10")
    case True
    then show ?thesis by (simp add: str_nat.simps [of n] digit_char_is_digit)
  next
    case False
    with 1 show ?thesis by (simp add: str_nat.simps [of n] digit_char_is_digit)
  qed
qed

lemma digits_to_nat_snoc: "digits_to_nat (ds @ [c]) = 10 * digits_to_nat ds + digit_val c"
  by (simp add: digits_to_nat_def)

lemma digits_to_nat_str_nat: "digits_to_nat (str_nat n) = n"
proof (induction n rule: str_nat.induct)
  case (1 n)
  show ?case
  proof (cases "n < 10")
    case True
    then show ?thesis by (simp add: str_nat.simps [of n] digits_to_nat_def digit_val_digit_char)
  next
    case False
    with 1 show ?thesis
      by (simp add: str_nat.simps [of n] digits_to_nat_snoc digit_val_digit_char)
  qed
qed

lemma grouped_digits_plain:
  "ds \<noteq> [] \<Longrightarrow> list_all is_digit ds \<Longrightarrow> grouped_digits ds = Some ds"
proof (induction ds rule: grouped_digits.induct)
  case 1
  then show ?case by simp
next
  case (2 c)
  then show ?case by simp
next
  case (3 c d cs)
  then have "d \<noteq> CHR ''_''" using digit_plain [of d] by (auto simp: plain_def)
  with 3 show ?case by simp
qed

lemma nat_literal_str_nat: "nat_literal (str_nat n) = Some n"
  using str_nat_digits [of n]
  by (simp add: nat_literal_def grouped_digits_plain digits_to_nat_str_nat)

lemma strip_id:
  assumes "s \<noteq> []" "\<not> is_space (hd s)" "\<not> is_space (last s)"
  shows "strip s = s"
proof -
  have a: "dropWhile is_space s = s" using assms(1,2) by (cases s) simp_all
  have "rev s \<noteq> []" "\<not> is_space (hd (rev s))" using assms(1,3) by (simp_all add: hd_rev)
  then have "dropWhile is_space (rev s) = rev s" by (cases "rev s") simp_all
  then show ?thesis by (simp add: strip_def a)
qed

lemma str_nat_hd_last: "is_digit (hd (str_nat n))" "is_digit (last (str_nat n))"
  using str_nat_digits [of n] by (cases "str_nat n"; simp add: list_all_iff)+

lemma str_int_chars: "list_all (\<lambda>c. is_digit c \<or> c = CHR ''-'') (str_int i) \<and> str_int i \<noteq> []"
  using str_nat_digits [of "nat i"] str_nat_digits [of "nat (- i)"]
  by (auto simp: str_int_def list_all_iff)

lemma str_int_last: "is_digit (last (str_int i))"
  using str_nat_hd_last(2) [of "nat i"] str_nat_hd_last(2) [of "nat (- i)"] str_nat_digits [of "nat (- i)"]
  by (simp add: str_int_def)

lemma py_int_str_int: "py_int (str_int i) = Some i"
proof (cases "i < 0")
  case True
  have ne: "str_nat (nat (- i)) \<noteq> []" using str_nat_digits by blast
  have "\<not> is_space (last (str_int i))" using digit_plain [OF str_int_last [of i]] by (simp add: plain_def)
  moreover have "\<not> is_space (hd (str_int i))" using True by (simp add: str_int_def is_space_def)
  ultimately have "strip (str_int i) = str_int i" using True by (intro strip_id) (simp_all add: str_int_def)
  then show ?thesis using True by (simp add: py_int_def signed_literal_def str_int_def nat_literal_str_nat)
next
  case False
  let ?s = "str_nat (nat i)"
  have ne: "?s \<noteq> []" using str_nat_digits by blast
  have p: "plain (hd ?s)" "plain (last ?s)" using str_nat_hd_last [of "nat i"] by (simp_all add: digit_plain)
  then have "strip ?s = ?s" using ne by (intro strip_id) (simp_all add: plain_def)
  moreover obtain c cs where cs: "?s = c # cs" using ne by (cases ?s) auto
  moreover have "c \<noteq> CHR ''-''" "c \<noteq> CHR ''+''" using p(1) cs by (auto simp: plain_def)
  ultimately show ?thesis
    using False nat_literal_str_nat [of "nat i"]
    by (simp add: py_int_def signed_literal_def str_int_def)
qed

subsection \<open>The duration format\<close>

lemma fmt3_of_nat:
  "fmt3 (of_nat n / 1000) =
     str_nat (n div 1000) @ ''.'' @
     [digit_char (n div 100 mod 10), digit_char (n div 10 mod 10), digit_char (n mod 10)]"
proof -
  have "(of_nat n / 1000 * 1000 :: rat) = of_int (int n)" by simp
  then have "py_round (of_nat n / 1000 * 1000) = int n" by (simp only: py_round_of_int)
  then show ?thesis by (simp add: fmt3_def Let_def)
qed

lemma takeWhile_upto:
  assumes "list_all P xs" "\<not> P y"
  shows "takeWhile P (xs @ y # ys) = xs" "dropWhile P (xs @ y # ys) = y # ys"
  using assms by (induction xs) simp_all

lemma takeWhile_all:
  assumes "list_all P xs"
  shows "takeWhile P xs = xs" "dropWhile P xs = []"
  using assms by (induction xs) simp_all

lemma three_digits_value:
  "digits_to_nat [digit_char (n div 100 mod 10), digit_char (n div 10 mod 10), digit_char (n mod 10)] =
     n mod 1000"
proof -
  have "digits_to_nat [digit_char (n div 100 mod 10), digit_char (n div 10 mod 10), digit_char (n mod 10)] =
      100 * (n div 100 mod 10) + 10 * (n div 10 mod 10) + n mod 10"
    by (simp add: digits_to_nat_def digit_val_digit_char)
  also have "\<dots> = n mod 1000"
    using mod_mult2_eq [of n 100 10] mod_mult2_eq [of n 10 10] by simp
  finally show ?thesis .
qed

lemma mantissa_fmt3:
  "mantissa_literal (str_nat a @ ''.'' @ [digit_char (n div 100 mod 10), digit_char (n div 10 mod 10), digit_char (n mod 10)]) =
     Some (of_nat a + of_nat (n mod 1000) / 1000)"
proof -
  let ?f = "[digit_char (n div 100 mod 10), digit_char (n div 10 mod 10), digit_char (n mod 10)]"
  have dig: "list_all is_digit (str_nat a)" "str_nat a \<noteq> []" using str_nat_digits by blast+
  have nd: "list_all (\<lambda>c. c \<noteq> CHR ''.'') (str_nat a)"
    using dig(1) digit_plain by (auto simp: list_all_iff plain_def)
  have tw: "takeWhile (\<lambda>c. c \<noteq> CHR ''.'') (str_nat a @ CHR ''.'' # ?f) = str_nat a"
    and dw: "dropWhile (\<lambda>c. c \<noteq> CHR ''.'') (str_nat a @ CHR ''.'' # ?f) = CHR ''.'' # ?f"
    using takeWhile_upto [OF nd, of "CHR ''.''" ?f] by simp_all
  have f: "grouped_digits ?f = Some ?f"
    by (rule grouped_digits_plain) (simp_all add: digit_char_is_digit)
  have i: "grouped_digits (str_nat a) = Some (str_nat a)"
    using dig by (simp add: grouped_digits_plain)
  show ?thesis
    unfolding mantissa_literal_def Let_def
    by (simp add: tw dw f i dig(2) three_digits_value digits_to_nat_str_nat del: grouped_digits.simps)
qed

lemma py_float_plain:
  assumes "strip s = s" "s \<noteq> []" "hd s \<noteq> CHR ''-''" "hd s \<noteq> CHR ''+''"
    and "list_all (\<lambda>c. \<not> is_exp_mark c) s"
  shows "py_float s = map_option (\<lambda>v. v) (mantissa_literal s)"
proof -
  have tw: "takeWhile (\<lambda>c. \<not> is_exp_mark c) s = s" "dropWhile (\<lambda>c. \<not> is_exp_mark c) s = []"
    using assms(5) by (rule takeWhile_all)+
  show ?thesis
    unfolding py_float_def Let_def assms(1)
    using assms(2,3,4) by (simp add: tw split: option.splits)
qed

lemma plain_facts:
  assumes "plain c"
  shows "\<not> is_space c" "c \<noteq> CHR ''-''" "c \<noteq> CHR ''+''" "c \<noteq> CHR ''_''"
    "c \<noteq> CHR '';''" "c \<noteq> CHR ''=''" "c \<noteq> CHR '',''" "c \<noteq> CHR ''.''" "\<not> is_exp_mark c"
  using assms by (auto simp: plain_def is_exp_mark_def)

lemma py_float_fmt3:
  assumes "three_decimals d"
  shows "py_float (fmt3 d) = Some d"
proof -
  from assms obtain n :: nat where d: "d = of_nat n / 1000" by (auto simp: three_decimals_def)
  let ?f = "[digit_char (n div 100 mod 10), digit_char (n div 10 mod 10), digit_char (n mod 10)]"
  let ?s = "str_nat (n div 1000) @ ''.'' @ ?f"
  have s: "fmt3 d = ?s" unfolding d by (rule fmt3_of_nat)
  have dig: "list_all is_digit (str_nat (n div 1000))" "str_nat (n div 1000) \<noteq> []"
    using str_nat_digits by blast+
  have chars: "list_all (\<lambda>c. is_digit c \<or> c = CHR ''.'') ?s"
    using dig(1) by (simp add: digit_char_is_digit list_all_iff)
  have hd: "is_digit (hd ?s)" using str_nat_hd_last(1) [of "n div 1000"] dig(2) by simp
  have last: "is_digit (last ?s)" by (simp add: digit_char_is_digit)
  have ne: "?s \<noteq> []" by simp
  have strip: "strip ?s = ?s"
    using ne plain_facts(1) [OF digit_plain [OF hd]] plain_facts(1) [OF digit_plain [OF last]]
    by (rule strip_id)
  have nosign: "hd ?s \<noteq> CHR ''-''" "hd ?s \<noteq> CHR ''+''"
    using plain_facts(2,3) [OF digit_plain [OF hd]] by blast+
  have "\<not> is_exp_mark c" if "is_digit c \<or> c = CHR ''.''" for c
    using that plain_facts(9) [OF digit_plain [of c]] by (auto simp: is_exp_mark_def)
  then have noexp: "list_all (\<lambda>c. \<not> is_exp_mark c) ?s"
    using chars unfolding list_all_iff by blast
  have val: "(of_nat (n div 1000) + of_nat (n mod 1000) / 1000 :: rat) = of_nat n / 1000"
  proof -
    have "(of_nat n :: rat) = of_nat (1000 * (n div 1000) + n mod 1000)" by simp
    also have "\<dots> = 1000 * of_nat (n div 1000) + of_nat (n mod 1000)"
      by (simp only: of_nat_add of_nat_mult of_nat_numeral)
    finally show ?thesis by simp
  qed
  have "py_float ?s = map_option (\<lambda>v. v) (mantissa_literal ?s)"
    using strip ne nosign noexp by (rule py_float_plain)
  also have "\<dots> = Some (of_nat (n div 1000) + of_nat (n mod 1000) / 1000)"
    by (simp only: mantissa_fmt3 option.map)
  finally have "py_float ?s = Some (of_nat (n div 1000) + of_nat (n mod 1000) / 1000)" .
  then have "py_float ?s = Some (of_nat n / 1000)" by (simp only: val)
  then show ?thesis unfolding d fmt3_of_nat .
qed

lemma fmt3_chars: "three_decimals d \<Longrightarrow> list_all (\<lambda>c. is_digit c \<or> c = CHR ''.'') (fmt3 d)"
proof -
  assume "three_decimals d"
  then obtain n :: nat where d: "d = of_nat n / 1000" by (auto simp: three_decimals_def)
  have "list_all is_digit (str_nat (n div 1000))" using str_nat_digits by blast
  then show ?thesis unfolding d fmt3_of_nat by (simp add: digit_char_is_digit list_all_iff)
qed

subsection \<open>Splitting rendered text\<close>

lemma split_on_none: "c \<notin> set xs \<Longrightarrow> split_on c xs = [xs]"
  by (induction xs) auto

lemma split_on_first: "c \<notin> set xs \<Longrightarrow> split_on c (xs @ c # ys) = xs # split_on c ys"
  by (induction xs) auto

lemma split_on_join:
  assumes "xs \<noteq> []" "\<forall>x \<in> set xs. c \<notin> set x"
  shows "split_on c (join [c] xs) = xs"
  using assms
proof (induction xs)
  case Nil
  then show ?case by simp
next
  case (Cons x xs)
  show ?case
  proof (cases xs)
    case Nil
    with Cons.prems show ?thesis by (simp add: split_on_none)
  next
    case (Cons y ys)
    with Cons.IH Cons.prems show ?thesis by (simp add: split_on_first)
  qed
qed

lemma all_some_map: "all_some (map Some xs) = Some xs"
  by (induction xs) simp_all

lemma str_int_plain_chars: "c \<in> set (str_int i) \<Longrightarrow> plain c \<or> c = CHR ''-''"
  using str_int_chars [of i] digit_plain by (auto simp: list_all_iff)

lemma str_int_no_sep:
  "CHR '','' \<notin> set (str_int i)" "CHR '';'' \<notin> set (str_int i)" "CHR ''='' \<notin> set (str_int i)"
  using str_int_plain_chars [of _ i] plain_facts(5,6,7) by fastforce+

lemma parse_pitches_render:
  assumes "ps \<noteq> []"
  shows "parse_pitches (render_pitches ps) = Some ps"
proof -
  have "split_on CHR '','' (join '','' (map str_int ps)) = map str_int ps"
    using assms by (intro split_on_join) (auto simp: str_int_no_sep)
  moreover have "map py_int (map str_int ps) = map Some ps"
    by (simp add: py_int_str_int)
  ultimately have "all_some (map py_int (split_on CHR '','' (join '','' (map str_int ps)))) = Some ps"
    by (simp only: all_some_map)
  then show ?thesis
    using assms by (simp add: parse_pitches_def render_pitches_def)
qed

lemma join_chars:
  "c \<in> set (join sep xs) \<Longrightarrow> c \<in> set sep \<or> (\<exists>x \<in> set xs. c \<in> set x)"
  by (induction sep xs rule: join.induct) auto

lemma join_hd: "xs \<noteq> [] \<Longrightarrow> hd xs \<noteq> [] \<Longrightarrow> hd (join sep xs) = hd (hd xs)"
  by (induction sep xs rule: join.induct) auto

lemma render_pitches_chars:
  "c \<in> set (render_pitches ps) \<Longrightarrow> c \<noteq> CHR '';'' \<and> c \<noteq> CHR ''=''"
  using join_chars [of c "'',''" "map str_int ps"] str_int_no_sep
  by (auto simp: render_pitches_def split: if_splits)

lemma str_int_hd: "hd (str_int i) \<noteq> CHR ''_''"
proof (cases "i < 0")
  case True
  then show ?thesis by (simp add: str_int_def)
next
  case False
  then show ?thesis
    using plain_facts(4) [OF digit_plain [OF str_nat_hd_last(1) [of "nat i"]]] by (simp add: str_int_def)
qed

lemma render_pitches_sentinel: "render_pitches ps = ''_'' \<longleftrightarrow> ps = []"
proof (cases ps)
  case Nil
  then show ?thesis by (simp add: render_pitches_def)
next
  case (Cons p ps')
  have "str_int p \<noteq> []" using str_int_chars by blast
  then have "hd (join '','' (map str_int ps)) = hd (str_int p)"
    using Cons by (intro join_hd [THEN trans]) simp_all
  then have "hd (render_pitches ps) \<noteq> CHR ''_''"
    using Cons str_int_hd [of p] by (simp add: render_pitches_def)
  then show ?thesis using Cons by auto
qed

lemma fmt3_no_sep:
  assumes "three_decimals d"
  shows "CHR '';'' \<notin> set (fmt3 d)" "CHR ''='' \<notin> set (fmt3 d)"
proof -
  have "plain c \<or> c = CHR ''.''" if "c \<in> set (fmt3 d)" for c
    using fmt3_chars [OF assms] that digit_plain by (auto simp: list_all_iff)
  then show "CHR '';'' \<notin> set (fmt3 d)" "CHR ''='' \<notin> set (fmt3 d)"
    using plain_facts(5,6) by fastforce+
qed

lemma field_value_tagged:
  assumes "CHR ''='' \<notin> set tag" "CHR ''='' \<notin> set v"
  shows "field_value (tag @ CHR ''='' # v) = Some v"
  using assms by (simp add: field_value_def split_on_first split_on_none)

lemma split_token:
  assumes "CHR '';'' \<notin> set a" "CHR '';'' \<notin> set b" "CHR '';'' \<notin> set d"
  shows "split_on CHR '';'' (''ON='' @ a @ '';OFF='' @ b @ '';DUR='' @ d) =
           [''ON='' @ a, ''OFF='' @ b, ''DUR='' @ d]"
proof -
  have "''ON='' @ a @ '';OFF='' @ b @ '';DUR='' @ d =
        (''ON='' @ a) @ CHR '';'' # ((''OFF='' @ b) @ CHR '';'' # (''DUR='' @ d))"
    by simp
  moreover have n: "CHR '';'' \<notin> set (''ON='' @ a)" "CHR '';'' \<notin> set (''OFF='' @ b)" "CHR '';'' \<notin> set (''DUR='' @ d)"
    using assms by simp_all
  ultimately show ?thesis
    by (simp only: split_on_first [OF n(1)] split_on_first [OF n(2)] split_on_none [OF n(3)])
qed

lemma nth_opt_three: "nth_opt [a, b, c] 0 = Some a" "nth_opt [a, b, c] 1 = Some b" "nth_opt [a, b, c] 2 = Some c"
  by (simp_all add: numeral_2_eq_2)

lemma parse_fields_render:
  assumes "three_decimals (tok_dur tk)"
  shows "parse_fields (render_token tk) =
           Some (render_pitches (tok_on tk), render_pitches (tok_off tk), tok_dur tk)"
proof -
  let ?a = "render_pitches (tok_on tk)" and ?b = "render_pitches (tok_off tk)" and ?d = "fmt3 (tok_dur tk)"
  have nosemi: "CHR '';'' \<notin> set ?a" "CHR '';'' \<notin> set ?b" "CHR '';'' \<notin> set ?d"
    using render_pitches_chars fmt3_no_sep(1) [OF assms] by blast+
  have noeq: "CHR ''='' \<notin> set ?a" "CHR ''='' \<notin> set ?b" "CHR ''='' \<notin> set ?d"
    using render_pitches_chars fmt3_no_sep(2) [OF assms] by blast+
  have parts: "split_on CHR '';'' (render_token tk) = [''ON='' @ ?a, ''OFF='' @ ?b, ''DUR='' @ ?d]"
    unfolding render_token_def using nosemi by (rule split_token)
  have f1: "field_value (''ON='' @ ?a) = Some ?a"
    using field_value_tagged [of "''ON''" ?a] noeq(1) by simp
  have f2: "field_value (''OFF='' @ ?b) = Some ?b"
    using field_value_tagged [of "''OFF''" ?b] noeq(2) by simp
  have f3: "field_value (''DUR='' @ ?d) = Some ?d"
    using field_value_tagged [of "''DUR''" ?d] noeq(3) by simp
  show ?thesis
    unfolding parse_fields_def Let_def parts nth_opt_three
    by (simp only: Option.bind.simps f1 f2 f3 py_float_fmt3 [OF assms] option.case)
qed

lemma decode_token_render:
  assumes "three_decimals (tok_dur tk)"
  shows "decode_token i (render_token tk) st = apply_token tk st"
proof -
  have off: "(if render_pitches (tok_off tk) \<noteq> ''_'' then parse_pitches (render_pitches (tok_off tk)) else Some [])
      = Some (tok_off tk)"
    using render_pitches_sentinel [of "tok_off tk"] parse_pitches_render [of "tok_off tk"] by auto
  have on: "(if render_pitches (tok_on tk) \<noteq> ''_'' then parse_pitches (render_pitches (tok_on tk)) else Some [])
      = Some (tok_on tk)"
    using render_pitches_sentinel [of "tok_on tk"] parse_pitches_render [of "tok_on tk"] by auto
  show ?thesis
    unfolding decode_token_def parse_fields_render [OF assms]
    by (simp only: option.case prod.case off on Let_def apply_token_def)
qed

lemma decode_loop_render:
  assumes "list_all (\<lambda>tk. three_decimals (tok_dur tk)) tks"
  shows "decode_loop i (map render_token tks) st = fold apply_token tks st"
  using assms by (induction tks arbitrary: i st) (simp_all add: decode_token_render)

section \<open>The decoder\<close>

lemma close_open_fields:
  "current_time (close_open p st) = current_time st"
  "note_state (close_open p st) = note_state st"
  "report (close_open p st) = report st"
  by (simp_all add: close_open_def Let_def split: option.splits)

lemma close_open_ok:
  "list_all duration_ok (collected_notes st) \<Longrightarrow> list_all duration_ok (collected_notes (close_open p st))"
  by (simp add: close_open_def Let_def duration_ok_def MAX_NOTE_DURATION_def split: option.splits)

lemma apply_off_ok:
  "list_all duration_ok (collected_notes st) \<Longrightarrow> list_all duration_ok (collected_notes (apply_off p st))"
  by (simp add: apply_off_def Let_def close_open_ok)

lemma apply_on_ok:
  "list_all duration_ok (collected_notes st) \<Longrightarrow> list_all duration_ok (collected_notes (apply_on p st))"
  by (simp add: apply_on_def Let_def close_open_ok)

lemma fold_apply_off_ok:
  "list_all duration_ok (collected_notes st) \<Longrightarrow>
   list_all duration_ok (collected_notes (fold apply_off ps st))"
  by (induction ps arbitrary: st) (simp_all add: apply_off_ok)

lemma fold_apply_on_ok:
  "list_all duration_ok (collected_notes st) \<Longrightarrow>
   list_all duration_ok (collected_notes (fold apply_on ps st))"
  by (induction ps arbitrary: st) (simp_all add: apply_on_ok)

lemma decode_token_ok:
  assumes "list_all duration_ok (collected_notes st)"
  shows "list_all duration_ok (collected_notes (decode_token i token st))"
  using assms
  by (auto simp: decode_token_def report_error_def Let_def fold_apply_off_ok fold_apply_on_ok
      split: option.splits)

lemma decode_loop_ok:
  "list_all duration_ok (collected_notes st) \<Longrightarrow>
   list_all duration_ok (collected_notes (decode_loop i toks st))"
  by (induction toks arbitrary: i st) (simp_all add: decode_token_ok)

lemma flush_note_ok:
  "list_all duration_ok notes \<Longrightarrow> list_all duration_ok (flush_note now entry notes)"
  by (cases entry)
     (simp add: flush_note_def Let_def duration_ok_def MAX_NOTE_DURATION_def split: option.splits)

lemma fold_flush_ok:
  "list_all duration_ok acc \<Longrightarrow> list_all duration_ok (fold (flush_note now) ns acc)"
  by (induction ns arbitrary: acc) (simp_all add: flush_note_ok)

lemma collect_notes_ok: "list_all duration_ok (collect_notes toks)"
proof -
  have "list_all duration_ok (collected_notes initial_dec_state)"
    by (simp add: initial_dec_state_def)
  then have "list_all duration_ok (collected_notes (decode_loop 0 toks initial_dec_state))"
    by (rule decode_loop_ok)
  then show ?thesis by (simp add: collect_notes_def final_flush_def fold_flush_ok)
qed

text \<open>
  C5. For every token list, every note interval the decoder collects, whether closed by
  an OFF, by a re-attacking ON or by the final flush, has a duration strictly greater than
  0 and at most \<open>MAX_NOTE_DURATION = 8\<close>; a raw duration above 8 is recorded as 8, both
  when a sounding note is closed and in the final flush.
\<close>

theorem decoder_duration_bounds:
  "MAX_NOTE_DURATION = 8 \<and>
   (\<forall>(pitch, start, dur) \<in> set (tokens_to_midi toks). 0 < dur \<and> dur \<le> MAX_NOTE_DURATION) \<and>
   (\<forall>(pitch, start, dur) \<in> set (collect_notes toks). 0 < dur \<and> dur \<le> MAX_NOTE_DURATION) \<and>
   (start_of (note_state st) p = Some s \<and> MAX_NOTE_DURATION < current_time st - s \<longrightarrow>
      collected_notes (close_open p st) = collected_notes st @ [(p, s, MAX_NOTE_DURATION)]) \<and>
   (MAX_NOTE_DURATION < now - s \<longrightarrow>
      flush_note now (p, Some s) notes = notes @ [(p, s, MAX_NOTE_DURATION)])"
proof -
  have a: "\<forall>(pitch, start, dur) \<in> set (collect_notes toks). 0 < dur \<and> dur \<le> MAX_NOTE_DURATION"
    using collect_notes_ok [of toks] by (auto simp: list_all_iff duration_ok_def)
  then have b: "\<forall>(pitch, start, dur) \<in> set (tokens_to_midi toks). 0 < dur \<and> dur \<le> MAX_NOTE_DURATION"
    by (simp add: tokens_to_midi_def)
  have c: "start_of (note_state st) p = Some s \<and> MAX_NOTE_DURATION < current_time st - s \<longrightarrow>
      collected_notes (close_open p st) = collected_notes st @ [(p, s, MAX_NOTE_DURATION)]"
    by (simp add: close_open_def Let_def MAX_NOTE_DURATION_def)
  have d: "MAX_NOTE_DURATION < now - s \<longrightarrow>
      flush_note now (p, Some s) notes = notes @ [(p, s, MAX_NOTE_DURATION)]"
    by (simp add: flush_note_def Let_def MAX_NOTE_DURATION_def)
  show ?thesis using a b c d by (simp add: MAX_NOTE_DURATION_def)
qed

theorem decoder_duration_bounds_witness:
  "tokens_to_midi [''ON=60,62;OFF=_;DUR=10.000'', ''ON=60;OFF=62;DUR=1.000''] =
     [(62, 0, 8), (60, 0, 8), (60, 10, 1)] \<and>
   (62, 0, 8) \<in> set (tokens_to_midi [''ON=60,62;OFF=_;DUR=10.000'', ''ON=60;OFF=62;DUR=1.000'']) \<and>
   (0 :: rat) < 8 \<and> (8 :: rat) \<le> MAX_NOTE_DURATION \<and>
   start_of [(60, Some 0)] 60 = Some 0 \<and> MAX_NOTE_DURATION < 10 - 0 \<and>
   collected_notes (close_open 60 \<lparr>current_time = 10, note_state = [(60, Some 0)], collected_notes = [], report = []\<rparr>)
     = [(60, 0, 8)] \<and>
   flush_note 10 (60, Some 0) [] = [(60, 0, 8)]"
proof -
  have e: "tokens_to_midi [''ON=60,62;OFF=_;DUR=10.000'', ''ON=60;OFF=62;DUR=1.000''] =
     [(62, 0, 8), (60, 0, 8), (60, 10, 1)]" by code_simp
  have f: "start_of [(60, Some 0)] 60 = Some 0" by (simp add: start_of_def)
  show ?thesis
    using decoder_duration_bounds [of "[''ON=60,62;OFF=_;DUR=10.000'', ''ON=60;OFF=62;DUR=1.000'']"
        "\<lparr>current_time = 10, note_state = [(60, Some 0)], collected_notes = [], report = []\<rparr>" 60 0 10 "[]"]
      e f
    by (simp add: MAX_NOTE_DURATION_def)
qed

lemma fold_flush_note: "fold (flush_note now) ns acc = acc @ concat (map (flushed now) ns)"
proof (induction ns arbitrary: acc)
  case Nil
  then show ?case by simp
next
  case (Cons e ns)
  have "flush_note now e acc = acc @ flushed now e"
    by (cases e) (simp add: flush_note_def flushed_def Let_def split: option.splits)
  then show ?case by (simp add: Cons.IH)
qed

lemma set_start_keys:
  "map fst (set_start p v ns) = (if p \<in> fst ` set ns then map fst ns else map fst ns @ [p])"
  by (induction ns) (force simp: image_iff)+

lemma set_start_distinct: "distinct (map fst ns) \<Longrightarrow> distinct (map fst (set_start p v ns))"
  by (simp add: set_start_keys)

lemma apply_off_distinct: "keys_distinct st \<Longrightarrow> keys_distinct (apply_off p st)"
  by (simp add: keys_distinct_def apply_off_def Let_def close_open_fields set_start_distinct)

lemma apply_on_distinct: "keys_distinct st \<Longrightarrow> keys_distinct (apply_on p st)"
  by (simp add: keys_distinct_def apply_on_def Let_def close_open_fields set_start_distinct)

lemma fold_apply_off_distinct: "keys_distinct st \<Longrightarrow> keys_distinct (fold apply_off ps st)"
  by (induction ps arbitrary: st) (simp_all add: apply_off_distinct)

lemma fold_apply_on_distinct: "keys_distinct st \<Longrightarrow> keys_distinct (fold apply_on ps st)"
  by (induction ps arbitrary: st) (simp_all add: apply_on_distinct)

lemma keys_distinct_update [simp]:
  "keys_distinct (st\<lparr>current_time := t\<rparr>) = keys_distinct st"
  "keys_distinct (st\<lparr>report := r\<rparr>) = keys_distinct st"
  by (simp_all add: keys_distinct_def)

lemma decode_token_distinct: "keys_distinct st \<Longrightarrow> keys_distinct (decode_token i token st)"
  by (auto simp: decode_token_def report_error_def Let_def fold_apply_off_distinct fold_apply_on_distinct
      split: option.splits)

lemma decode_loop_distinct: "keys_distinct st \<Longrightarrow> keys_distinct (decode_loop i toks st)"
  by (induction toks arbitrary: i st) (simp_all add: decode_token_distinct)

lemma decoded_distinct: "distinct (map fst (note_state (decode_loop 0 toks initial_dec_state)))"
proof -
  have "keys_distinct initial_dec_state" by (simp add: keys_distinct_def initial_dec_state_def)
  then have "keys_distinct (decode_loop 0 toks initial_dec_state)" by (rule decode_loop_distinct)
  then show ?thesis by (simp add: keys_distinct_def)
qed

text \<open>
  C10. In the final flush a pitch that is still open yields a note interval only if its
  clamped duration \<open>min (final_clock - start) 8\<close> is strictly positive, and then with that
  duration; a pitch opened at the final clock value itself yields nothing.
\<close>

theorem final_flush_drops_zero_length:
  "final_flush st = collected_notes st @ concat (map (flushed (current_time st)) (note_state st)) \<and>
   flushed now (p, Some s) =
     (if 0 < min (now - s) 8 then [(p, s, min (now - s) 8)] else []) \<and>
   flushed now (p, None) = [] \<and>
   flushed now (p, Some now) = [] \<and>
   (start_of (note_state (decode_loop 0 toks initial_dec_state)) p =
      Some (current_time (decode_loop 0 toks initial_dec_state)) \<longrightarrow>
    (\<forall>n \<in> set (collect_notes toks).
       n \<in> set (collected_notes (decode_loop 0 toks initial_dec_state)) \<or> fst n \<noteq> p))"
proof -
  have a: "final_flush st = collected_notes st @ concat (map (flushed (current_time st)) (note_state st))" for st
    by (simp add: final_flush_def fold_flush_note)
  have b: "flushed now (p, Some s) = (if 0 < min (now - s) 8 then [(p, s, min (now - s) 8)] else [])"
    "flushed now (p, None) = []" "flushed now (p, Some now) = []"
    by (simp_all add: flushed_def MAX_NOTE_DURATION_def)
  let ?st = "decode_loop 0 toks initial_dec_state"
  have c: "\<forall>n \<in> set (collect_notes toks). n \<in> set (collected_notes ?st) \<or> fst n \<noteq> p"
    if open_now: "start_of (note_state ?st) p = Some (current_time ?st)"
  proof
    have dist: "distinct (map fst (note_state ?st))" by (rule decoded_distinct)
    fix n assume "n \<in> set (collect_notes toks)"
    then have "n \<in> set (final_flush ?st)" by (simp add: collect_notes_def)
    then consider "n \<in> set (collected_notes ?st)"
      | e where "e \<in> set (note_state ?st)" "n \<in> set (flushed (current_time ?st) e)"
      unfolding a by auto
    then show "n \<in> set (collected_notes ?st) \<or> fst n \<noteq> p"
    proof cases
      case 1
      then show ?thesis by simp
    next
      case 2
      show ?thesis
      proof (cases "fst e = p")
        case True
        then have "map_of (note_state ?st) p = Some (snd e)"
          using 2(1) dist by (metis map_of_is_SomeI prod.collapse)
        then have "snd e = Some (current_time ?st)" using open_now by (simp add: start_of_def)
        then have "flushed (current_time ?st) e = []"
          by (cases e) (simp add: flushed_def)
        with 2(2) show ?thesis by simp
      next
        case False
        then have "fst n \<noteq> p"
          using 2(2) by (cases e) (auto simp: flushed_def split: option.splits if_splits)
        then show ?thesis by simp
      qed
    qed
  qed
  show ?thesis using a [of st] b c by blast
qed

theorem final_flush_drops_zero_length_witness:
  "start_of (note_state (decode_loop 0 [''ON=62;OFF=_;DUR=1.000'', ''ON=60;OFF=_;DUR=0.000''] initial_dec_state)) 60 =
     Some (current_time (decode_loop 0 [''ON=62;OFF=_;DUR=1.000'', ''ON=60;OFF=_;DUR=0.000''] initial_dec_state)) \<and>
   collect_notes [''ON=62;OFF=_;DUR=1.000'', ''ON=60;OFF=_;DUR=0.000''] = [(62, 0, 1)] \<and>
   (62, 0, 1) \<in> set (collect_notes [''ON=62;OFF=_;DUR=1.000'', ''ON=60;OFF=_;DUR=0.000'']) \<and>
   fst (62 :: int, 0 :: rat, 1 :: rat) \<noteq> 60"
proof -
  have e: "collect_notes [''ON=62;OFF=_;DUR=1.000'', ''ON=60;OFF=_;DUR=0.000''] = [(62, 0, 1)]"
    by code_simp
  have f: "start_of (note_state (decode_loop 0 [''ON=62;OFF=_;DUR=1.000'', ''ON=60;OFF=_;DUR=0.000''] initial_dec_state)) 60 =
     Some (current_time (decode_loop 0 [''ON=62;OFF=_;DUR=1.000'', ''ON=60;OFF=_;DUR=0.000''] initial_dec_state))"
    by code_simp
  show ?thesis
    using final_flush_drops_zero_length
      [of initial_dec_state 0 60 0 "[''ON=62;OFF=_;DUR=1.000'', ''ON=60;OFF=_;DUR=0.000'']"] e f
    by simp
qed

subsection \<open>Malformed tokens\<close>

lemma apply_off_fields:
  "current_time (apply_off p st) = current_time st" "report (apply_off p st) = report st"
  by (simp_all add: apply_off_def Let_def close_open_fields)

lemma apply_on_fields:
  "current_time (apply_on p st) = current_time st" "report (apply_on p st) = report st"
  by (simp_all add: apply_on_def Let_def close_open_fields)

lemma fold_apply_off_fields:
  "current_time (fold apply_off ps st) = current_time st" "report (fold apply_off ps st) = report st"
  by (induction ps arbitrary: st) (simp_all add: apply_off_fields)

lemma fold_apply_on_fields:
  "current_time (fold apply_on ps st) = current_time st" "report (fold apply_on ps st) = report st"
  by (induction ps arbitrary: st) (simp_all add: apply_on_fields)

text \<open>
  A token is reported at most once, with its index, and a reported token never advances
  the clock.
\<close>

lemma reported_token_clock:
  "report (decode_token i token st) = report st \<or>
   (report (decode_token i token st) = report st @ [(i, token)] \<and>
    current_time (decode_token i token st) = current_time st)"
  by (auto simp: decode_token_def report_error_def Let_def fold_apply_off_fields fold_apply_on_fields
      split: option.splits)

text \<open>
  A token that fails in its field count, in its DUR or in an OFF pitch is reported and
  leaves the rest of the state as it was.
\<close>

lemma malformed_before_off:
  assumes "parse_fields token = None \<or>
           (\<exists>on_part off_part dur_part. parse_fields token = Some (on_part, off_part, dur_part) \<and>
              off_part \<noteq> ''_'' \<and> parse_pitches off_part = None)"
  shows "decode_token i token st = report_error i token st"
  using assms by (auto simp: decode_token_def)

text \<open>
  A token whose ON list does not parse is reported after its OFF list has been applied.
\<close>

lemma malformed_on_part:
  assumes "parse_fields token = Some (on_part, off_part, dur_part)"
    and "(if off_part \<noteq> ''_'' then parse_pitches off_part else Some []) = Some off_pitches"
    and "on_part \<noteq> ''_''" "parse_pitches on_part = None"
  shows "decode_token i token st = report_error i token (fold apply_off off_pitches st)"
  using assms by (simp add: decode_token_def Let_def)

text \<open>
  C6, at the input \<open>ON=60;OFF=_;DUR=1.000\<close>, \<open>ON=x;OFF=60;DUR=1.000\<close>,
  \<open>ON=_;OFF=_;DUR=1.000\<close>: the second token is malformed (its ON pitch is no integer) and
  is reported with index 1 without advancing the clock, but its OFF has been applied:
  pitch 60 is closed at time 1. Without the malformed token the note lasts until the
  final flush at time 2.
\<close>

theorem malformed_on_token_applies_off:
  "decode_token 1 ''ON=x;OFF=60;DUR=1.000''
     \<lparr>current_time = 1, note_state = [(60, Some 0)], collected_notes = [], report = []\<rparr> =
     \<lparr>current_time = 1, note_state = [(60, None)], collected_notes = [(60, 0, 1)],
      report = [(1, ''ON=x;OFF=60;DUR=1.000'')]\<rparr> \<and>
   decode_report [''ON=60;OFF=_;DUR=1.000'', ''ON=x;OFF=60;DUR=1.000'', ''ON=_;OFF=_;DUR=1.000''] =
     [(1, ''ON=x;OFF=60;DUR=1.000'')] \<and>
   tokens_to_midi [''ON=60;OFF=_;DUR=1.000'', ''ON=x;OFF=60;DUR=1.000'', ''ON=_;OFF=_;DUR=1.000''] =
     [(60, 0, 1)] \<and>
   tokens_to_midi [''ON=60;OFF=_;DUR=1.000'', ''ON=_;OFF=_;DUR=1.000''] = [(60, 0, 2)]"
  by code_simp

section \<open>Encoding and decoding a re-attack\<close>

lemma three_decimals_round3:
  assumes "0 \<le> x"
  shows "three_decimals (py_round3 x)"
proof -
  have n: "0 \<le> py_round (x * 1000)" using assms by (intro py_round_nonneg) simp
  then have "py_round3 x = of_nat (nat (py_round (x * 1000))) / 1000"
    by (simp add: py_round3_def)
  moreover have "0 \<le> py_round3 x" using assms by (rule py_round3_nonneg)
  ultimately show ?thesis unfolding three_decimals_def by blast
qed

lemma three_decimals_zero: "three_decimals 0"
  unfolding three_decimals_def by (auto intro: exI [of _ 0])

lemma three_decimals_snap: "three_decimals (snap_to_grid d)"
proof (cases "d < 4 / 100")
  case True
  then show ?thesis by (simp add: snap_to_grid_def Let_def three_decimals_zero)
next
  case False
  then have "0 \<le> d / (1 / 8)" "0 \<le> d / (1 / 12)" by simp_all
  then have nn: "0 \<le> (of_int (py_round (d / (1 / 8))) * (1 / 8) :: rat)"
    "0 \<le> (of_int (py_round (d / (1 / 12))) * (1 / 12) :: rat)"
    by (simp_all add: py_round_nonneg)
  have "three_decimals (py_round3 (of_int (py_round (d / (1 / 8))) * (1 / 8)))"
    "three_decimals (py_round3 (of_int (py_round (d / (1 / 12))) * (1 / 12)))"
    using nn by (simp_all only: three_decimals_round3)
  then show ?thesis using False by (simp add: snap_to_grid_def Let_def)
qed

lemma snap_positive: "0 < snap_to_grid d \<Longrightarrow> 0 < d"
  by (cases "d < 4 / 100") (auto simp: snap_to_grid_def Let_def)

lemma reattack_maps:
  assumes "0 < d1" "0 < d2" "0 \<le> p + s" "p + s \<le> 127"
  shows "map_events [(t, d1, [p]), (t + d1, d2, [p])] s =
           ([(t, [p + s]), (t + d1, [p + s])], [(t + d1, [p + s]), (t + d1 + d2, [p + s])])"
  using assms by (simp add: map_events_def map_event_def valid_pitches_def Let_def)

lemma reattack_times:
  assumes "0 < d1" "0 < d2"
  shows "all_times_of [(t, [q]), (t + d1, [q])] [(t + d1, [q]), (t + d1 + d2, [q])] =
           [t, t + d1, t + d1 + d2]"
  using assms by (simp add: all_times_of_def dd_keys_def)

lemma reattack_sweep:
  assumes "0 < d1" "0 < d2" "0 < snap_to_grid d1" "0 < snap_to_grid d2"
  shows "tokens (sweep [(t, [q]), (t + d1, [q])] [(t + d1, [q]), (t + d1 + d2, [q])]
                   [t, t + d1, t + d1 + d2]
                   \<lparr>note_count = (\<lambda>_. 0), prev_time = t, pending_on = {}, pending_off = {}, tokens = []\<rparr>) =
           [\<lparr>tok_on = [q], tok_off = [], tok_dur = snap_to_grid d1\<rparr>,
            \<lparr>tok_on = [q], tok_off = [], tok_dur = snap_to_grid d2\<rparr>,
            \<lparr>tok_on = [], tok_off = [q], tok_dur = 0\<rparr>]"
  using assms
  by (simp add: time_point_def emit_def clean_redundancy_def process_on_def process_off_def
      dd_get_def Let_def)

lemma reattack_records:
  assumes "0 < snap_to_grid d1" "0 < snap_to_grid d2" "0 \<le> p + s" "p + s \<le> 127"
  shows "generate_token_records [(t, d1, [p]), (t + d1, d2, [p])] s =
           [\<lparr>tok_on = [p + s], tok_off = [], tok_dur = snap_to_grid d1\<rparr>,
            \<lparr>tok_on = [p + s], tok_off = [], tok_dur = snap_to_grid d2\<rparr>,
            \<lparr>tok_on = [], tok_off = [p + s], tok_dur = 0\<rparr>]"
proof -
  have d: "0 < d1" "0 < d2" using assms(1,2) by (simp_all add: snap_positive)
  show ?thesis
    unfolding generate_token_records_def reattack_maps [OF d assms(3,4)] prod.case
      reattack_times [OF d] Let_def
    using reattack_sweep [OF d assms(1,2), of t "p + s"] by simp
qed

lemma reattack_decoded:
  assumes "0 < x" "0 < y"
  shows "final_flush (fold apply_token
           [\<lparr>tok_on = [q], tok_off = [], tok_dur = x\<rparr>,
            \<lparr>tok_on = [q], tok_off = [], tok_dur = y\<rparr>,
            \<lparr>tok_on = [], tok_off = [q], tok_dur = 0\<rparr>] initial_dec_state) =
         [(q, 0, min x MAX_NOTE_DURATION), (q, x, min y MAX_NOTE_DURATION)]"
  using assms
  by (simp add: apply_token_def apply_on_def apply_off_def close_open_def start_of_def
      initial_dec_state_def final_flush_def flush_note_def Let_def)

lemma reattack_encoded_decoded:
  assumes "0 < snap_to_grid d1" "0 < snap_to_grid d2" "0 \<le> p + s" "p + s \<le> 127"
  shows "generate_token_records [(t, d1, [p]), (t + d1, d2, [p])] s =
           [\<lparr>tok_on = [p + s], tok_off = [], tok_dur = snap_to_grid d1\<rparr>,
            \<lparr>tok_on = [p + s], tok_off = [], tok_dur = snap_to_grid d2\<rparr>,
            \<lparr>tok_on = [], tok_off = [p + s], tok_dur = 0\<rparr>] \<and>
         generate_tokens_from_events [(t, d1, [p]), (t + d1, d2, [p])] s =
           [''ON='' @ str_int (p + s) @ '';OFF=_;DUR='' @ fmt3 (snap_to_grid d1),
            ''ON='' @ str_int (p + s) @ '';OFF=_;DUR='' @ fmt3 (snap_to_grid d2),
            ''ON=_;OFF='' @ str_int (p + s) @ '';DUR=0.000''] \<and>
         tokens_to_midi (generate_tokens_from_events [(t, d1, [p]), (t + d1, d2, [p])] s) =
           [(p + s, 0, min (snap_to_grid d1) 8), (p + s, snap_to_grid d1, min (snap_to_grid d2) 8)]"
proof -
  let ?recs = "[\<lparr>tok_on = [p + s], tok_off = [], tok_dur = snap_to_grid d1\<rparr>,
            \<lparr>tok_on = [p + s], tok_off = [], tok_dur = snap_to_grid d2\<rparr>,
            \<lparr>tok_on = [], tok_off = [p + s], tok_dur = 0\<rparr>]"
  have recs: "generate_token_records [(t, d1, [p]), (t + d1, d2, [p])] s = ?recs"
    using assms by (rule reattack_records)
  have strs: "generate_tokens_from_events [(t, d1, [p]), (t + d1, d2, [p])] s =
           [''ON='' @ str_int (p + s) @ '';OFF=_;DUR='' @ fmt3 (snap_to_grid d1),
            ''ON='' @ str_int (p + s) @ '';OFF=_;DUR='' @ fmt3 (snap_to_grid d2),
            ''ON=_;OFF='' @ str_int (p + s) @ '';DUR=0.000'']"
    by (simp add: generate_tokens_from_events_def recs render_token_def render_pitches_def fmt3_zero)
  have dec: "list_all (\<lambda>tk. three_decimals (tok_dur tk)) ?recs"
    by (simp add: three_decimals_snap three_decimals_zero)
  have "collect_notes (map render_token ?recs) =
      [(p + s, 0, min (snap_to_grid d1) MAX_NOTE_DURATION),
       (p + s, snap_to_grid d1, min (snap_to_grid d2) MAX_NOTE_DURATION)]"
    unfolding collect_notes_def decode_loop_render [OF dec]
    using assms(1,2) by (rule reattack_decoded)
  then have "tokens_to_midi (map render_token ?recs) =
      [(p + s, 0, min (snap_to_grid d1) 8), (p + s, snap_to_grid d1, min (snap_to_grid d2) 8)]"
    using assms(1) by (simp add: tokens_to_midi_def MAX_NOTE_DURATION_def)
  then have "tokens_to_midi (generate_tokens_from_events [(t, d1, [p]), (t + d1, d2, [p])] s) =
      [(p + s, 0, min (snap_to_grid d1) 8), (p + s, snap_to_grid d1, min (snap_to_grid d2) 8)]"
    by (simp only: generate_tokens_from_events_def recs)
  with recs strs show ?thesis by blast
qed

text \<open>At a time point where a pitch starts, a token emitted there never has it in OFF.\<close>

lemma on_wins_at_time_point:
  assumes "q \<in> set (dd_get start_map t)" "finite (pending_off st)"
    and "tokens (time_point start_map end_map t nx st) \<noteq> tokens st"
  shows "q \<notin> set (tok_off (last (tokens (time_point start_map end_map t nx st))))"
proof -
  let ?b = "before_emit start_map end_map t st"
  have on: "q \<in> pending_on ?b"
    using assms(1) by (simp add: before_emit_def clean_redundancy_fields fold_process_on_fields)
  have off: "q \<notin> pending_off ?b"
    using on before_emit_disjoint [of start_map end_map t st] by blast
  have fin: "finite (pending_off ?b)"
  proof -
    have "pending_off (fold process_off (dd_get end_map t) st) \<subseteq> pending_off st \<union> set (dd_get end_map t)"
      using fold_process_off_pending by blast
    then have "finite (pending_off (fold process_off (dd_get end_map t) st))"
      using assms(2) by (meson finite_UnI finite_set finite_subset)
    then show ?thesis
      by (simp add: before_emit_def clean_redundancy_fields fold_process_on_fields)
  qed
  have changed: "tokens (emit nx ?b) \<noteq> tokens ?b"
    using assms(3) by (simp add: time_point_emit before_emit_tokens)
  then have "tok_off (last (tokens (emit nx ?b))) = sorted_list_of_set (pending_off ?b)"
    by (auto simp: emit_def Let_def split: option.splits if_splits)
  then show ?thesis using off fin by (simp add: time_point_emit)
qed

text \<open>
  C1, as amended. At a time point where a pitch starts, so also at the instant shared by
  the end of one event and the start of the next of the same pitch, a token emitted there
  never carries the pitch in its OFF field. For two events of the same pitch (valid after
  transposition), the first ending exactly when the second starts, both with a duration
  that quantizes to a positive value, the encoder emits three tokens: ON at the start, ON
  alone at the shared instant, and one OFF at the end; the decoder maps their text back to
  two separate closed intervals, the first closed by the re-attack.
\<close>

theorem reattack_rule:
  "(q \<in> set (dd_get start_map t0) \<and> finite (pending_off st) \<and>
    tokens (time_point start_map end_map t0 nx st) \<noteq> tokens st \<longrightarrow>
      q \<notin> set (tok_off (last (tokens (time_point start_map end_map t0 nx st))))) \<and>
   (0 < snap_to_grid d1 \<and> 0 < snap_to_grid d2 \<and> 0 \<le> p + s \<and> p + s \<le> 127 \<longrightarrow>
      generate_token_records [(t, d1, [p]), (t + d1, d2, [p])] s =
        [\<lparr>tok_on = [p + s], tok_off = [], tok_dur = snap_to_grid d1\<rparr>,
         \<lparr>tok_on = [p + s], tok_off = [], tok_dur = snap_to_grid d2\<rparr>,
         \<lparr>tok_on = [], tok_off = [p + s], tok_dur = 0\<rparr>] \<and>
      generate_tokens_from_events [(t, d1, [p]), (t + d1, d2, [p])] s =
        [''ON='' @ str_int (p + s) @ '';OFF=_;DUR='' @ fmt3 (snap_to_grid d1),
         ''ON='' @ str_int (p + s) @ '';OFF=_;DUR='' @ fmt3 (snap_to_grid d2),
         ''ON=_;OFF='' @ str_int (p + s) @ '';DUR=0.000''] \<and>
      tokens_to_midi (generate_tokens_from_events [(t, d1, [p]), (t + d1, d2, [p])] s) =
        [(p + s, 0, min (snap_to_grid d1) 8), (p + s, snap_to_grid d1, min (snap_to_grid d2) 8)])"
  using on_wins_at_time_point [of q start_map t0 st end_map nx]
    reattack_encoded_decoded [of d1 d2 p s t]
  by blast

theorem reattack_rule_witness:
  "0 < snap_to_grid 1 \<and> (0 :: int) \<le> 60 + 0 \<and> (60 :: int) + 0 \<le> 127 \<and>
   tokens_to_midi (generate_tokens_from_events [(0, 1, [60]), (0 + 1, 1, [60])] 0) =
     [(60, 0, 1), (60, 1, 1)] \<and>
   60 \<in> set (dd_get [(0, [60]), (1, [60 :: int])] (1 :: rat)) \<and>
   finite (pending_off \<lparr>note_count = (\<lambda>_. 0)(60 := 1), prev_time = 1, pending_on = {}, pending_off = {},
      tokens = [\<lparr>tok_on = [60], tok_off = [], tok_dur = 1\<rparr>]\<rparr>) \<and>
   tokens (time_point [(0, [60]), (1, [60])] [(1, [60]), (2, [60])] 1 (Some 2)
      \<lparr>note_count = (\<lambda>_. 0)(60 := 1), prev_time = 1, pending_on = {}, pending_off = {},
       tokens = [\<lparr>tok_on = [60], tok_off = [], tok_dur = 1\<rparr>]\<rparr>) =
     [\<lparr>tok_on = [60], tok_off = [], tok_dur = 1\<rparr>, \<lparr>tok_on = [60], tok_off = [], tok_dur = 1\<rparr>] \<and>
   60 \<notin> set (tok_off (last (tokens (time_point [(0, [60]), (1, [60])] [(1, [60]), (2, [60])] 1 (Some 2)
      \<lparr>note_count = (\<lambda>_. 0)(60 := 1), prev_time = 1, pending_on = {}, pending_off = {},
       tokens = [\<lparr>tok_on = [60], tok_off = [], tok_dur = 1\<rparr>]\<rparr>))))"
proof -
  let ?st = "\<lparr>note_count = (\<lambda>_. 0)(60 := 1), prev_time = 1 :: rat, pending_on = {}, pending_off = {},
       tokens = [\<lparr>tok_on = [60], tok_off = [], tok_dur = 1\<rparr>]\<rparr>"
  let ?sm = "[(0 :: rat, [60 :: int]), (1, [60])]" and ?em = "[(1 :: rat, [60 :: int]), (2, [60])]"
  have a: "snap_to_grid 1 = 1" by code_simp
  have h: "0 < snap_to_grid 1" by (simp add: a)
  have p1: "(0 :: int) \<le> 60 + 0" and p2: "(60 :: int) + 0 \<le> 127" by simp_all
  have m: "60 \<in> set (dd_get ?sm 1)" by (simp add: dd_get_def)
  have f: "finite (pending_off ?st)" by simp
  have tp: "tokens (time_point ?sm ?em 1 (Some 2) ?st) =
     [\<lparr>tok_on = [60], tok_off = [], tok_dur = 1\<rparr>, \<lparr>tok_on = [60], tok_off = [], tok_dur = 1\<rparr>]"
    by (simp add: time_point_def emit_def clean_redundancy_def process_on_def process_off_def
        dd_get_def Let_def a)
  then have ne: "tokens (time_point ?sm ?em 1 (Some 2) ?st) \<noteq> tokens ?st" by simp
  note r = reattack_rule [of 60 ?sm 1 ?st ?em "Some 2" 1 1 60 0 0]
  from r h p1 p2
  have dec: "tokens_to_midi (generate_tokens_from_events [(0, 1, [60]), (0 + 1, 1, [60])] 0) =
      [(60 + 0, 0, min (snap_to_grid 1) 8), (60 + 0, snap_to_grid 1, min (snap_to_grid 1) 8)]"
    by blast
  from r m f ne
  have off: "60 \<notin> set (tok_off (last (tokens (time_point ?sm ?em 1 (Some 2) ?st))))"
    by blast
  from dec have dec': "tokens_to_midi (generate_tokens_from_events [(0, 1, [60]), (0 + 1, 1, [60])] 0) =
      [(60, 0, 1), (60, 1, 1)]" by (simp add: a)
  show ?thesis using h p1 p2 dec' m f tp off by blast
qed

text \<open>
  C1 as stated fails when a duration is below the quantizer's threshold: the second event
  lasts 0.01, the time point of its start emits nothing, and at the last time point the
  stale pending ON removes the OFF and is itself replaced by the sentinel. The encoder
  emits one ON and no OFF, and the decoder finds one interval.
\<close>

theorem reattack_rule_counterexample:
  "(0 :: rat) + 1 = 1 \<and>
   generate_tokens_from_events [(0, 1, [60]), (1, 1 / 100, [60])] 0 =
     [''ON=60;OFF=_;DUR=1.000'', ''ON=_;OFF=_;DUR=0.000''] \<and>
   tokens_to_midi (generate_tokens_from_events [(0, 1, [60]), (1, 1 / 100, [60])] 0) = [(60, 0, 1)]"
  by code_simp

section \<open>The emitted tokens as text\<close>

lemma read_token_render:
  assumes "three_decimals (tok_dur tk)"
  shows "read_token (render_token tk) = Some (tok_on tk, tok_off tk, tok_dur tk)"
proof -
  have off: "(if render_pitches (tok_off tk) \<noteq> ''_'' then parse_pitches (render_pitches (tok_off tk)) else Some [])
      = Some (tok_off tk)"
    using render_pitches_sentinel [of "tok_off tk"] parse_pitches_render [of "tok_off tk"] by auto
  have on: "(if render_pitches (tok_on tk) \<noteq> ''_'' then parse_pitches (render_pitches (tok_on tk)) else Some [])
      = Some (tok_on tk)"
    using render_pitches_sentinel [of "tok_on tk"] parse_pitches_render [of "tok_on tk"] by auto
  show ?thesis
    unfolding read_token_def parse_fields_render [OF assms]
    by (simp only: option.case prod.case off on)
qed

lemma emit_printable: "durations_printable st \<Longrightarrow> durations_printable (emit nx st)"
  by (auto simp: durations_printable_def emit_def Let_def three_decimals_snap three_decimals_zero
      split: option.splits)

lemma time_point_printable:
  "durations_printable st \<Longrightarrow> durations_printable (time_point sm em t nx st)"
  unfolding time_point_emit
  by (rule emit_printable) (simp add: durations_printable_def before_emit_tokens)

lemma sweep_printable: "durations_printable st \<Longrightarrow> durations_printable (sweep sm em ts st)"
  by (induction ts arbitrary: st) (simp_all add: time_point_printable)

lemma records_printable:
  "list_all (\<lambda>tk. three_decimals (tok_dur tk)) (generate_token_records evs s)"
proof -
  obtain sm em where maps: "map_events evs s = (sm, em)" by (cases "map_events evs s")
  have "durations_printable (initial_enc_state T)" for T
    by (simp add: durations_printable_def initial_enc_state_def)
  then have "durations_printable (sweep sm em T (initial_enc_state T))" for T
    by (rule sweep_printable)
  then show ?thesis
    unfolding generate_token_records_unfold [OF maps] by (simp add: durations_printable_def)
qed

text \<open>
  Decoding the encoder's output is applying the emitted tokens field by field: no emitted
  token is malformed.
\<close>

lemma decode_encoded:
  "collect_notes (generate_tokens_from_events evs s) =
     final_flush (fold apply_token (generate_token_records evs s) initial_dec_state)"
  by (simp add: collect_notes_def generate_tokens_from_events_def decode_loop_render records_printable)

text \<open>
  C2. For every list of raw events and every transposition, every emitted token reads
  back as an ON list, an OFF list and a duration, and no pitch is in both lists. Step C is
  what ensures it: a pitch pending in both sets stays in ON and leaves OFF.
\<close>

theorem token_disjointness:
  "(\<forall>token \<in> set (generate_tokens_from_events evs s).
      \<exists>ons offs dur. read_token token = Some (ons, offs, dur) \<and> set ons \<inter> set offs = {}) \<and>
   (\<forall>tk \<in> set (generate_token_records evs s). set (tok_on tk) \<inter> set (tok_off tk) = {}) \<and>
   pending_on (clean_redundancy st) = pending_on st \<and>
   pending_off (clean_redundancy st) = pending_off st - pending_on st"
proof -
  have recs: "\<forall>tk \<in> set (generate_token_records evs s). set (tok_on tk) \<inter> set (tok_off tk) = {}"
    using records_disjoint [of evs s] by (simp add: list_all_iff token_disjoint_def)
  have "\<exists>ons offs dur. read_token token = Some (ons, offs, dur) \<and> set ons \<inter> set offs = {}"
    if "token \<in> set (generate_tokens_from_events evs s)" for token
  proof -
    from that obtain tk where tk: "tk \<in> set (generate_token_records evs s)" "token = render_token tk"
      by (auto simp: generate_tokens_from_events_def)
    have "three_decimals (tok_dur tk)"
      using records_printable [of evs s] tk(1) by (simp add: list_all_iff)
    then have "read_token token = Some (tok_on tk, tok_off tk, tok_dur tk)"
      unfolding tk(2) by (rule read_token_render)
    then show ?thesis using recs tk(1) by blast
  qed
  then show ?thesis using recs by (simp add: clean_redundancy_fields)
qed

theorem token_disjointness_witness:
  "''ON=64;OFF=62,66,69;DUR=0.500''
     \<in> set (generate_tokens_from_events [(0, 1 / 3, [60, 64, 67]), (1 / 3, 1 / 2, [62])] 2) \<and>
   read_token ''ON=64;OFF=62,66,69;DUR=0.500'' = Some ([64], [62, 66, 69], 1 / 2) \<and>
   \<lparr>tok_on = [64], tok_off = [62, 66, 69], tok_dur = 1 / 2\<rparr>
     \<in> set (generate_token_records [(0, 1 / 3, [60, 64, 67]), (1 / 3, 1 / 2, [62])] 2) \<and>
   set [64 :: int] \<inter> set [62, 66, 69] = {}"
proof -
  have a: "generate_token_records [(0, 1 / 3, [60, 64, 67]), (1 / 3, 1 / 2, [62])] 2 =
      [\<lparr>tok_on = [62, 66, 69], tok_off = [], tok_dur = 333 / 1000\<rparr>,
       \<lparr>tok_on = [64], tok_off = [62, 66, 69], tok_dur = 1 / 2\<rparr>,
       \<lparr>tok_on = [], tok_off = [64], tok_dur = 0\<rparr>]"
    by code_simp
  have b: "generate_tokens_from_events [(0, 1 / 3, [60, 64, 67]), (1 / 3, 1 / 2, [62])] 2 =
      [''ON=62,66,69;OFF=_;DUR=0.333'', ''ON=64;OFF=62,66,69;DUR=0.500'', ''ON=_;OFF=64;DUR=0.000'']"
    by code_simp
  have c: "read_token ''ON=64;OFF=62,66,69;DUR=0.500'' = Some ([64], [62, 66, 69], 1 / 2)"
    by code_simp
  show ?thesis
    using token_disjointness [of "[(0, 1 / 3, [60, 64, 67]), (1 / 3, 1 / 2, [62])]" 2] a b c
    by simp
qed

end
